theory Spec2Isabelle
  imports Main "HOL-Library.Multiset"
begin

section \<open>Cell keys: \<^verbatim>\<open>getKey\<close>\<close>

text \<open>
  \<^verbatim>\<open>getKey(rowIndex, columnIndex)\<close> is the template literal
  \<^verbatim>\<open>`${rowIndex}-${columnIndex}`\<close>. Indices are integers (the empty range is conventionally
  given with a stop index of \<open>-1\<close>, so they are modelled as \<open>int\<close>); the conversion of an
  integer to a string is the decimal numeral, with a leading minus sign for negatives
  (JavaScript switches to exponent notation from \<open>10\<^sup>2\<^sup>1\<close> on, far beyond any index).
\<close>

definition digit_char :: "nat \<Rightarrow> char" where
  "digit_char d = char_of (48 + d)"

function toString_nat :: "nat \<Rightarrow> string" where
  "toString_nat n =
     (if n < 10 then [digit_char n]
      else toString_nat (n div 10) @ [digit_char (n mod 10)])"
  by pat_completeness auto
termination
  by (relation "measure id") auto

definition toString :: "int \<Rightarrow> string" where
  "toString i = (if i < 0 then CHR ''-'' # toString_nat (nat (- i)) else toString_nat (nat i))"

definition getKey :: "int \<Rightarrow> int \<Rightarrow> string" where
  "getKey rowIndex columnIndex = toString rowIndex @ ''-'' @ toString columnIndex"

section \<open>\<^verbatim>\<open>foreachKey\<close>\<close>

text \<open>
  The two nested \<^verbatim>\<open>for\<close> loops, rows outermost, both bounds inclusive. The callback
  mutates variables of the enclosing function, so it is a state transformer here.
\<close>

definition foreachKey :: "int \<Rightarrow> int \<Rightarrow> int \<Rightarrow> int \<Rightarrow> (string \<Rightarrow> 's \<Rightarrow> 's) \<Rightarrow> 's \<Rightarrow> 's" where
  "foreachKey rowStartIndex rowStopIndex columnStartIndex columnStopIndex callback =
     fold (\<lambda>rowIndex.
        fold (\<lambda>columnIndex. callback (getKey rowIndex columnIndex))
          [columnStartIndex..columnStopIndex])
      [rowStartIndex..rowStopIndex]"

section \<open>The key recycler: class \<^verbatim>\<open>ReusableKeyCache\<close>\<close>

record ReusableKeyCache =
  lastMap :: "string \<rightharpoonup> nat"

text \<open>The constructor: \<^verbatim>\<open>this.lastMap = new Map()\<close>.\<close>

definition new_ReusableKeyCache :: ReusableKeyCache where
  "new_ReusableKeyCache = \<lparr>lastMap = Map.empty\<rparr>"

text \<open>
  \<^verbatim>\<open>usedKeys\<close> is a JavaScript array that is only ever written with \<^verbatim>\<open>true\<close>: a write
  past the end extends the array (the holes read as \<^verbatim>\<open>undefined\<close>, which is falsy), and a
  read past the end is \<^verbatim>\<open>undefined\<close> as well.
\<close>

definition array_set_true :: "bool list \<Rightarrow> nat \<Rightarrow> bool list" where
  "array_set_true a k =
     (if k < length a then a[k := True]
      else a @ replicate (k - length a) False @ [True])"

definition array_truthy :: "bool list \<Rightarrow> nat \<Rightarrow> bool" where
  "array_truthy a k = (k < length a \<and> a ! k)"

text \<open>The local variables of \<^verbatim>\<open>getReusableKeyMap\<close> that its two callbacks update.\<close>

record key_state =
  newMap :: "string \<rightharpoonup> nat"
  usedKeys :: "bool list"
  nextKey :: nat

text \<open>
  The \<^verbatim>\<open>while (newKey == null)\<close> loop: returns the key found and the cursor after it.
  It stops at the latest at the end of the array.
\<close>

function find_new_key :: "bool list \<Rightarrow> nat \<Rightarrow> nat \<times> nat" where
  "find_new_key used next_key =
     (if \<not> array_truthy used next_key then (next_key, next_key + 1)
      else find_new_key used (next_key + 1))"
  by pat_completeness auto
termination
  by (relation "measure (\<lambda>(used, next_key). length used - next_key)")
     (auto simp: array_truthy_def)

text \<open>Callback of the first pass: carry the previous key of a coordinate forward.\<close>

definition carry_forward :: "(string \<rightharpoonup> nat) \<Rightarrow> string \<Rightarrow> key_state \<Rightarrow> key_state" where
  "carry_forward last_map key s =
     (case last_map key of
        None \<Rightarrow> s
      | Some lastKey \<Rightarrow>
          s\<lparr>newMap := (newMap s)(key \<mapsto> lastKey),
            usedKeys := array_set_true (usedKeys s) lastKey\<rparr>)"

text \<open>Callback of the second pass: give a key to every coordinate that has none yet.\<close>

definition assign_key :: "string \<Rightarrow> key_state \<Rightarrow> key_state" where
  "assign_key key s =
     (case newMap s key of
        Some newKey \<Rightarrow>
          s\<lparr>newMap := (newMap s)(key \<mapsto> newKey),
            usedKeys := array_set_true (usedKeys s) newKey\<rparr>
      | None \<Rightarrow>
          (let (newKey, next_key) = find_new_key (usedKeys s) (nextKey s)
           in s\<lparr>newMap := (newMap s)(key \<mapsto> newKey),
                usedKeys := array_set_true (usedKeys s) newKey,
                nextKey := next_key\<rparr>))"

text \<open>
  The local variables after the first \<^verbatim>\<open>foreachKey\<close> of \<^verbatim>\<open>getReusableKeyMap\<close>
  (lines 58 to 75).
\<close>

definition first_pass :: "ReusableKeyCache \<Rightarrow> int \<Rightarrow> int \<Rightarrow> int \<Rightarrow> int \<Rightarrow> key_state" where
  "first_pass this rowStartIndex rowStopIndex columnStartIndex columnStopIndex =
     foreachKey rowStartIndex rowStopIndex columnStartIndex columnStopIndex
       (carry_forward (lastMap this))
       \<lparr>newMap = Map.empty, usedKeys = [], nextKey = 1\<rparr>"

text \<open>
  \<^verbatim>\<open>getReusableKeyMap\<close> runs the second \<^verbatim>\<open>foreachKey\<close>, returns the new map and stores
  it in \<^verbatim>\<open>this.lastMap\<close>: the result is the pair of the returned map and the updated
  object.
\<close>

definition getReusableKeyMap ::
  "ReusableKeyCache \<Rightarrow> int \<Rightarrow> int \<Rightarrow> int \<Rightarrow> int \<Rightarrow> (string \<rightharpoonup> nat) \<times> ReusableKeyCache" where
  "getReusableKeyMap this rowStartIndex rowStopIndex columnStartIndex columnStopIndex =
     (let s = foreachKey rowStartIndex rowStopIndex columnStartIndex columnStopIndex assign_key
                (first_pass this rowStartIndex rowStopIndex columnStartIndex columnStopIndex)
      in (newMap s, this\<lparr>lastMap := newMap s\<rparr>))"

section \<open>The range renderer: \<^verbatim>\<open>defaultCellRangeRenderer\<close>\<close>

subsection \<open>Data\<close>

text \<open>
  A position style is one of the two object literals of the source: its \<^verbatim>\<open>height\<close> and
  \<^verbatim>\<open>width\<close> are a number or \<^verbatim>\<open>'auto'\<close>. Offsets and sizes are numbers; they are
  modelled as integers.
\<close>

datatype dimension = Auto | Px int

record style =
  height :: dimension
  left :: int
  position :: string
  top' :: int
  width :: dimension

text \<open>What \<^verbatim>\<open>getSizeAndPositionOfCell\<close> returns, and the two methods of a manager that are used.\<close>

record sizeAndPosition =
  offset :: int
  size' :: int

record sizeAndPositionManager =
  getSizeAndPositionOfCell :: "int \<Rightarrow> sizeAndPosition"
  areOffsetsAdjusted :: bool

record indices =
  start :: int
  stop :: int

text \<open>
  A rendered cell is a React element. The renderer reads its \<^verbatim>\<open>key\<close> (a string or
  \<^verbatim>\<open>null\<close>), and \<^verbatim>\<open>warnAboutMissingStyle\<close> reads
  \<^verbatim>\<open>type.__internalCellMeasurerFlag\<close>, \<^verbatim>\<open>props.children\<close> and \<^verbatim>\<open>props.style\<close>.
  \<open>None\<close> stands for \<^verbatim>\<open>undefined\<close> (for \<^verbatim>\<open>children\<close>: anything that has no
  \<^verbatim>\<open>props\<close>).
\<close>

datatype component = Component (component_name: string) (internalCellMeasurerFlag: bool)

datatype props = Props (props_style: "style option") (props_children: "element option")
  and element = Element (elem_key: "string option") (elem_type: "component option") (elem_props: props)

text \<open>
  What the cell renderer returns and what a property of \<^verbatim>\<open>cellCache\<close> holds: a missing
  property reads as \<^verbatim>\<open>undefined\<close>; \<^verbatim>\<open>undefined\<close>, \<^verbatim>\<open>null\<close> and \<^verbatim>\<open>false\<close>
  are falsy, an element is truthy.
\<close>

datatype rendered = Undefined | Null | FalseValue | Rendered element

fun truthy :: "rendered \<Rightarrow> bool" where
  "truthy (Rendered e) = True"
| "truthy _ = False"

text \<open>The argument of the cell renderer. The parent is an object; it is passed on by identity.\<close>

record cellRendererParams =
  cell_columnIndex :: int
  cell_isScrolling :: bool
  cell_isVisible :: bool
  cell_key :: string
  cell_parent :: nat
  cell_rowIndex :: int
  cell_style :: style

text \<open>
  The parameters of \<^verbatim>\<open>defaultCellRangeRenderer\<close> that a call only reads.
  \<^verbatim>\<open>deferredMeasurementCache\<close> is optional; of it only \<^verbatim>\<open>has(rowIndex, columnIndex)\<close>
  is used. \<open>production\<close> is \<^verbatim>\<open>process.env.NODE_ENV === 'production'\<close>. The cell
  renderer, the managers and the measurement cache are functions of their arguments: what
  they do besides returning a value is outside the file.
\<close>

record CellRangeRendererParams =
  cellRenderer :: "cellRendererParams \<Rightarrow> rendered"
  columnSizeAndPositionManager :: sizeAndPositionManager
  columnStartIndex :: int
  columnStopIndex :: int
  deferredMeasurementCache :: "(int \<Rightarrow> int \<Rightarrow> bool) option"
  horizontalOffsetAdjustment :: int
  isScrolling :: bool
  isScrollingOptOut :: bool
  parent :: nat
  rowSizeAndPositionManager :: sizeAndPositionManager
  rowStartIndex :: int
  rowStopIndex :: int
  verticalOffsetAdjustment :: int
  visibleColumnIndices :: indices
  visibleRowIndices :: indices
  production :: bool

text \<open>
  What a call can change: the two caches passed by reference, the recycler (stored under
  \<^verbatim>\<open>ReusableKeyCache.symbol\<close> on \<^verbatim>\<open>cellCache\<close> in
  \<^verbatim>\<open>src/source/Grid/defaultCellRangeRenderer.js\<close>, on \<^verbatim>\<open>parent\<close> in the other copy of
  the file), the flag \<^verbatim>\<open>parent.__warnedAboutMissingStyle\<close> and the console. The list
  \<open>cellRenderer_calls\<close> records the arguments of every invocation of the cell renderer, in
  order; the source has no such variable.
\<close>

record render_state =
  cellCache :: "string \<Rightarrow> rendered"
  cellCache_symbol :: "ReusableKeyCache option"
  parent_symbol :: "ReusableKeyCache option"
  styleCache :: "string \<rightharpoonup> style"
  warnedAboutMissingStyle :: bool
  console :: "string list"
  cellRenderer_calls :: "cellRendererParams list"

text \<open>\<^verbatim>\<open>reusableKeyMap.get(key).toString()\<close> throws when the key is not in the map.\<close>

datatype error = TypeError

subsection \<open>\<^verbatim>\<open>ReusableKeyCache.getReusableKeyCache\<close>\<close>

text \<open>
  The static method reads the slot of the owner object and creates the recycler when the slot
  is \<^verbatim>\<open>null\<close> or \<^verbatim>\<open>undefined\<close>. The object found or created stays in the slot, so the
  callers below write the recycler back after \<^verbatim>\<open>getReusableKeyMap\<close> has updated it.
\<close>

definition getReusableKeyCache :: "ReusableKeyCache option \<Rightarrow> ReusableKeyCache" where
  "getReusableKeyCache slot =
     (case slot of None \<Rightarrow> new_ReusableKeyCache | Some reusableKeyCache \<Rightarrow> reusableKeyCache)"

subsection \<open>\<^verbatim>\<open>warnAboutMissingStyle\<close>\<close>

definition warnAboutMissingStyle :: "bool \<Rightarrow> element \<Rightarrow> render_state \<Rightarrow> render_state" where
  "warnAboutMissingStyle is_production renderedCell st =
     (if \<not> is_production then
        (let renderedCell' =
               (if (case elem_type renderedCell of None \<Rightarrow> False
                    | Some t \<Rightarrow> internalCellMeasurerFlag t)
                then props_children (elem_props renderedCell)
                else Some renderedCell)
         in case renderedCell' of
              None \<Rightarrow> st
            | Some c \<Rightarrow>
                if props_style (elem_props c) = None \<and> \<not> warnedAboutMissingStyle st
                then st\<lparr>warnedAboutMissingStyle := True,
                        console := console st @
                          [''Rendered cell should include style property for positioning.'']\<rparr>
                else st)
      else st)"

subsection \<open>The body of the inner loop\<close>

text \<open>
  The position style of one cell (lines 171 to 204): returns the style and the style cache
  after the step.
\<close>

definition compute_style ::
  "CellRangeRendererParams \<Rightarrow> bool \<Rightarrow> int \<Rightarrow> sizeAndPosition \<Rightarrow> int \<Rightarrow> sizeAndPosition \<Rightarrow>
   string \<Rightarrow> (string \<rightharpoonup> style) \<Rightarrow> style \<times> (string \<rightharpoonup> style)" where
  "compute_style P canCacheStyle rowIndex rowDatum columnIndex columnDatum k sc =
     (case (if canCacheStyle then sc k else None) of
        Some cached \<Rightarrow> (cached, sc)
      | None \<Rightarrow>
          if (case deferredMeasurementCache P of None \<Rightarrow> False
              | Some has \<Rightarrow> \<not> has rowIndex columnIndex)
          then (\<lparr>height = Auto, left = 0, position = ''absolute'', top' = 0, width = Auto\<rparr>, sc)
          else
            (let s = \<lparr>height = Px (size' rowDatum),
                      left = offset columnDatum + horizontalOffsetAdjustment P,
                      position = ''absolute'',
                      top' = offset rowDatum + verticalOffsetAdjustment P,
                      width = Px (size' columnDatum)\<rparr>
             in (s, sc(k \<mapsto> s))))"

text \<open>
  The rendered cell (lines 216 to 247): from the cell cache while scrolling (or opted out) with
  no offset adjustment, from the cell renderer otherwise. \<^verbatim>\<open>Object.assign({}, renderedCell,
  {key: reuseKey})\<close> is a new element with the other properties of the cached one.
\<close>

definition compute_cell ::
  "CellRangeRendererParams \<Rightarrow> string \<Rightarrow> string \<Rightarrow> cellRendererParams \<Rightarrow> render_state \<Rightarrow>
   rendered \<times> render_state" where
  "compute_cell P k reuseKey cellRendererParams st =
     (if (isScrollingOptOut P \<or> isScrolling P) \<and>
         horizontalOffsetAdjustment P = 0 \<and> verticalOffsetAdjustment P = 0
      then
        (let st' =
               (if \<not> truthy (cellCache st k)
                then st\<lparr>cellCache := (cellCache st)(k := cellRenderer P cellRendererParams),
                        cellRenderer_calls := cellRenderer_calls st @ [cellRendererParams]\<rparr>
                else st)
         in case cellCache st' k of
              Rendered e \<Rightarrow>
                if elem_key e \<noteq> Some reuseKey
                then (Rendered (Element (Some reuseKey) (elem_type e) (elem_props e)), st')
                else (Rendered e, st')
            | other \<Rightarrow> (other, st'))
      else
        (cellRenderer P cellRendererParams,
         st\<lparr>cellRenderer_calls := cellRenderer_calls st @ [cellRendererParams]\<rparr>))"

text \<open>One iteration of the inner loop, on the state and the array \<^verbatim>\<open>renderedCells\<close>.\<close>

definition render_cell ::
  "CellRangeRendererParams \<Rightarrow> (string \<rightharpoonup> nat) \<Rightarrow> bool \<Rightarrow> int \<Rightarrow> sizeAndPosition \<Rightarrow> int \<Rightarrow>
   render_state \<times> element list \<Rightarrow> error + render_state \<times> element list" where
  "render_cell P reusableKeyMap canCacheStyle rowIndex rowDatum columnIndex acc =
     (let st = fst acc;
          renderedCells = snd acc;
          columnDatum = getSizeAndPositionOfCell (columnSizeAndPositionManager P) columnIndex;
          isVisible =
            (columnIndex \<ge> start (visibleColumnIndices P) \<and>
             columnIndex \<le> stop (visibleColumnIndices P) \<and>
             rowIndex \<ge> start (visibleRowIndices P) \<and>
             rowIndex \<le> stop (visibleRowIndices P));
          k = getKey rowIndex columnIndex
      in case reusableKeyMap k of
           None \<Rightarrow> Inl TypeError
         | Some slot \<Rightarrow>
             (let reuseKey = toString (int slot);
                  styled = compute_style P canCacheStyle rowIndex rowDatum columnIndex columnDatum k
                             (styleCache st);
                  cellRendererParams =
                    \<lparr>cell_columnIndex = columnIndex,
                     cell_isScrolling = isScrolling P,
                     cell_isVisible = isVisible,
                     cell_key = reuseKey,
                     cell_parent = parent P,
                     cell_rowIndex = rowIndex,
                     cell_style = fst styled\<rparr>;
                  content = compute_cell P k reuseKey cellRendererParams
                              (st\<lparr>styleCache := snd styled\<rparr>)
              in case fst content of
                   Rendered renderedCell \<Rightarrow>
                     Inr (if production P then snd content
                          else warnAboutMissingStyle (production P) renderedCell (snd content),
                          renderedCells @ [renderedCell])
                 | other \<Rightarrow> Inr (snd content, renderedCells)))"

subsection \<open>The loops\<close>

text \<open>A \<^verbatim>\<open>for\<close> loop whose body can throw: the first exception ends it.\<close>

fun fold_result :: "('a \<Rightarrow> 's \<Rightarrow> error + 's) \<Rightarrow> 'a list \<Rightarrow> 's \<Rightarrow> error + 's" where
  "fold_result f [] s = Inr s"
| "fold_result f (x # xs) s = (case f x s of Inl e \<Rightarrow> Inl e | Inr s' \<Rightarrow> fold_result f xs s')"

definition render_rows ::
  "CellRangeRendererParams \<Rightarrow> (string \<rightharpoonup> nat) \<Rightarrow> bool \<Rightarrow> render_state \<Rightarrow>
   error + render_state \<times> element list" where
  "render_rows P reusableKeyMap canCacheStyle st =
     fold_result
       (\<lambda>rowIndex.
          fold_result
            (render_cell P reusableKeyMap canCacheStyle rowIndex
               (getSizeAndPositionOfCell (rowSizeAndPositionManager P) rowIndex))
            [columnStartIndex P..columnStopIndex P])
       [rowStartIndex P..rowStopIndex P]
       (st, [])"

subsection \<open>Sorting by \<^verbatim>\<open>parseInt\<close> of the key\<close>

text \<open>
  \<^verbatim>\<open>parseInt\<close> and \<^verbatim>\<open>Array.prototype.sort\<close> are built in. \<^verbatim>\<open>parseInt(string)\<close> skips
  leading white space, reads an optional sign and an optional \<^verbatim>\<open>0x\<close> prefix, and then the
  longest run of digits of the radix; without a digit the result is \<^verbatim>\<open>NaN\<close>, written
  \<open>None\<close> here. A \<^verbatim>\<open>null\<close> key is first converted to the string \<^verbatim>\<open>"null"\<close>.
  Of the white space characters only those of ASCII are modelled, and the result is an
  integer of any size, where JavaScript rounds to a double.
\<close>

definition is_whitespace :: "char \<Rightarrow> bool" where
  "is_whitespace c = ((of_char c :: nat) \<in> {9, 10, 11, 12, 13, 32})"

definition radix_digit :: "nat \<Rightarrow> char \<Rightarrow> nat option" where
  "radix_digit radix c =
     (let n = (of_char c :: nat);
          d = (if 48 \<le> n \<and> n \<le> 57 then Some (n - 48)
               else if 97 \<le> n \<and> n \<le> 122 then Some (n - 87)
               else if 65 \<le> n \<and> n \<le> 90 then Some (n - 55)
               else None)
      in case d of None \<Rightarrow> None | Some v \<Rightarrow> if v < radix then Some v else None)"

definition parseInt_string :: "string \<Rightarrow> int option" where
  "parseInt_string inputString =
     (let s = dropWhile is_whitespace inputString;
          sign = (case s of c # _ \<Rightarrow> if c = CHR ''-'' then - 1 else 1 | [] \<Rightarrow> (1::int));
          s' = (case s of c # r \<Rightarrow> if c = CHR ''-'' \<or> c = CHR ''+'' then r else s | [] \<Rightarrow> s);
          hex = (case s' of c # d # _ \<Rightarrow> c = CHR ''0'' \<and> (d = CHR ''x'' \<or> d = CHR ''X'') | _ \<Rightarrow> False);
          radix = (if hex then 16 else 10);
          s'' = (if hex then drop 2 s' else s');
          z = takeWhile (\<lambda>c. radix_digit radix c \<noteq> None) s''
      in if z = [] then None
         else Some (sign * int (foldl (\<lambda>acc c. acc * radix + (case radix_digit radix c of Some v \<Rightarrow> v | None \<Rightarrow> 0)) 0 z)))"

definition parseInt :: "string option \<Rightarrow> int option" where
  "parseInt k = parseInt_string (case k of None \<Rightarrow> ''null'' | Some s \<Rightarrow> s)"

text \<open>Subtraction of two numbers, either of which can be \<^verbatim>\<open>NaN\<close>.\<close>

definition number_minus :: "int option \<Rightarrow> int option \<Rightarrow> int option" where
  "number_minus x y = (case x of None \<Rightarrow> None | Some a \<Rightarrow> (case y of None \<Rightarrow> None | Some b \<Rightarrow> Some (a - b)))"

text \<open>
  \<^verbatim>\<open>sort\<close> with a comparison function: a comparison result \<^verbatim>\<open>NaN\<close> counts as \<open>0\<close>, and
  the sort is stable. It is modelled by insertion from the right, which is stable; the order
  that an engine produces for a comparison function that is not a consistent ordering is
  not fixed by the language.
\<close>

fun sort_insert :: "('a \<Rightarrow> 'a \<Rightarrow> int option) \<Rightarrow> 'a \<Rightarrow> 'a list \<Rightarrow> 'a list" where
  "sort_insert comparefn x [] = [x]"
| "sort_insert comparefn x (y # ys) =
     (if (case comparefn x y of None \<Rightarrow> 0 | Some v \<Rightarrow> v) \<le> 0 then x # y # ys
      else y # sort_insert comparefn x ys)"

definition array_sort :: "('a \<Rightarrow> 'a \<Rightarrow> int option) \<Rightarrow> 'a list \<Rightarrow> 'a list" where
  "array_sort comparefn xs = foldr (sort_insert comparefn) xs []"

subsection \<open>The two copies of \<^verbatim>\<open>defaultCellRangeRenderer\<close>\<close>

text \<open>
  \<^verbatim>\<open>src/source/Grid/defaultCellRangeRenderer.js\<close>: the recycler lives on \<^verbatim>\<open>cellCache\<close>,
  and the comparison function is \<^verbatim>\<open>parseInt(b.key) - parseInt(a.key)\<close>.
\<close>

definition defaultCellRangeRenderer ::
  "CellRangeRendererParams \<Rightarrow> render_state \<Rightarrow> error + element list \<times> render_state" where
  "defaultCellRangeRenderer P st =
     (let keyed = getReusableKeyMap (getReusableKeyCache (cellCache_symbol st))
                    (rowStartIndex P) (rowStopIndex P) (columnStartIndex P) (columnStopIndex P);
          reusableKeyMap = fst keyed;
          st1 = st\<lparr>cellCache_symbol := Some (snd keyed)\<rparr>;
          offsetsAdjusted =
            (areOffsetsAdjusted (columnSizeAndPositionManager P) \<or>
             areOffsetsAdjusted (rowSizeAndPositionManager P));
          canCacheStyle = (\<not> isScrolling P \<and> \<not> offsetsAdjusted)
      in case render_rows P reusableKeyMap canCacheStyle st1 of
           Inl e \<Rightarrow> Inl e
         | Inr (st2, renderedCells) \<Rightarrow>
             Inr (array_sort
                    (\<lambda>a b. number_minus (parseInt (elem_key b)) (parseInt (elem_key a)))
                    renderedCells,
                  st2))"

text \<open>
  The copy in \<^verbatim>\<open>src/unnamed/part_001\<close>: the recycler lives on \<^verbatim>\<open>parent\<close>, and the
  comparison function is \<^verbatim>\<open>parseInt(a.key) - parseInt(b.key)\<close>.
\<close>

definition defaultCellRangeRenderer_part_001 ::
  "CellRangeRendererParams \<Rightarrow> render_state \<Rightarrow> error + element list \<times> render_state" where
  "defaultCellRangeRenderer_part_001 P st =
     (let keyed = getReusableKeyMap (getReusableKeyCache (parent_symbol st))
                    (rowStartIndex P) (rowStopIndex P) (columnStartIndex P) (columnStopIndex P);
          reusableKeyMap = fst keyed;
          st1 = st\<lparr>parent_symbol := Some (snd keyed)\<rparr>;
          offsetsAdjusted =
            (areOffsetsAdjusted (columnSizeAndPositionManager P) \<or>
             areOffsetsAdjusted (rowSizeAndPositionManager P));
          canCacheStyle = (\<not> isScrolling P \<and> \<not> offsetsAdjusted)
      in case render_rows P reusableKeyMap canCacheStyle st1 of
           Inl e \<Rightarrow> Inl e
         | Inr (st2, renderedCells) \<Rightarrow>
             Inr (array_sort
                    (\<lambda>a b. number_minus (parseInt (elem_key a)) (parseInt (elem_key b)))
                    renderedCells,
                  st2))"

section \<open>Notions used in the statements and proofs\<close>

text \<open>A decimal digit, by its character code.\<close>

definition is_digit :: "char \<Rightarrow> bool" where
  "is_digit c = (48 \<le> (of_char c :: nat) \<and> (of_char c :: nat) \<le> 57)"

text \<open>The number that a string of decimal digits denotes.\<close>

definition digits_value :: "string \<Rightarrow> nat" where
  "digits_value s = foldl (\<lambda>acc c. acc * 10 + (of_char c - 48)) 0 s"

text \<open>The coordinates of a rectangle in the order of the two nested loops: rows outermost.\<close>

definition rect_cells :: "int \<Rightarrow> int \<Rightarrow> int \<Rightarrow> int \<Rightarrow> (int \<times> int) list" where
  "rect_cells rs re cs ce = List.product [rs..re] [cs..ce]"

text \<open>
  The keys of these coordinates, in the same order: what \<^verbatim>\<open>foreachKey\<close>
  passes to its callback.
\<close>

definition rect_keys :: "int \<Rightarrow> int \<Rightarrow> int \<Rightarrow> int \<Rightarrow> string list" where
  "rect_keys rs re cs ce = map (\<lambda>(r, c). getKey r c) (rect_cells rs re cs ce)"

text \<open>
  The invariant of the second pass: the array \<^verbatim>\<open>usedKeys\<close> marks
  exactly the values of \<^verbatim>\<open>newMap\<close>, the map is injective, and every
  positive key below the cursor is in use.
\<close>

definition pass_inv :: "key_state \<Rightarrow> bool" where
  "pass_inv s \<longleftrightarrow>
     (\<forall>v. array_truthy (usedKeys s) v \<longleftrightarrow> v \<in> ran (newMap s)) \<and>
     inj_on (newMap s) (dom (newMap s)) \<and>
     1 \<le> nextKey s \<and>
     (\<forall>j. 1 \<le> j \<and> j < nextKey s \<longrightarrow> array_truthy (usedKeys s) j)"

text \<open>The invariant of the stored assignment: injective, with positive keys.\<close>

definition key_inv :: "ReusableKeyCache \<Rightarrow> bool" where
  "key_inv this \<longleftrightarrow> inj_on (lastMap this) (dom (lastMap this)) \<and> (\<forall>v \<in> ran (lastMap this). 1 \<le> v)"

text \<open>
  The recycler states that exist: a recycler is created by its constructor and changed by
  \<^verbatim>\<open>getReusableKeyMap\<close> only.
\<close>

inductive reachable :: "ReusableKeyCache \<Rightarrow> bool" where
  reachable_new: "reachable new_ReusableKeyCache"
| reachable_call: "reachable this \<Longrightarrow> reachable (snd (getReusableKeyMap this rs re cs ce))"

text \<open>
  The local variables of \<^verbatim>\<open>getReusableKeyMap\<close> in the second pass, just
  before its callback runs on the coordinate of index \<open>i\<close> of the rectangle.
\<close>

definition state_before :: "ReusableKeyCache \<Rightarrow> int \<Rightarrow> int \<Rightarrow> int \<Rightarrow> int \<Rightarrow> nat \<Rightarrow> key_state" where
  "state_before this rs re cs ce i =
     fold assign_key (take i (rect_keys rs re cs ce)) (first_pass this rs re cs ce)"

text \<open>The loop body on a coordinate pair, with the row datum that the outer loop computes.\<close>

definition render_coord ::
  "CellRangeRendererParams \<Rightarrow> (string \<rightharpoonup> nat) \<Rightarrow> bool \<Rightarrow> int \<times> int \<Rightarrow>
   render_state \<times> element list \<Rightarrow> error + render_state \<times> element list" where
  "render_coord P m canCacheStyle rc =
     render_cell P m canCacheStyle (fst rc)
       (getSizeAndPositionOfCell (rowSizeAndPositionManager P) (fst rc)) (snd rc)"

text \<open>The condition at lines 228 to 232 under which the cell cache is used.\<close>

definition cache_path :: "CellRangeRendererParams \<Rightarrow> bool" where
  "cache_path P \<longleftrightarrow>
     (isScrollingOptOut P \<or> isScrolling P) \<and>
     horizontalOffsetAdjustment P = 0 \<and> verticalOffsetAdjustment P = 0"

text \<open>
  What lines 237 to 241 make of a cell-cache entry: an element whose key differs is copied
  with the new key.
\<close>

definition with_key :: "string \<Rightarrow> rendered \<Rightarrow> rendered" where
  "with_key reuseKey cached =
     (case cached of
        Rendered e \<Rightarrow>
          if elem_key e \<noteq> Some reuseKey
          then Rendered (Element (Some reuseKey) (elem_type e) (elem_props e))
          else Rendered e
      | other \<Rightarrow> other)"

text \<open>
  What one iteration appends to \<^verbatim>\<open>renderedCells\<close>: nothing for
  \<^verbatim>\<open>undefined\<close>, \<^verbatim>\<open>null\<close> and
  \<^verbatim>\<open>false\<close>.
\<close>

definition emitted :: "rendered \<Rightarrow> element list" where
  "emitted x = (case x of Rendered e \<Rightarrow> [e] | other \<Rightarrow> [])"

text \<open>\<^verbatim>\<open>getKey\<close> on a pair.\<close>

definition coord_key :: "int \<times> int \<Rightarrow> string" where
  "coord_key rc = getKey (fst rc) (snd rc)"

text \<open>
  The identity key of a coordinate under an assignment: the string form of its slot key (the
  coordinates of the rectangle all have one).
\<close>

definition reuseKey_of :: "(string \<rightharpoonup> nat) \<Rightarrow> int \<times> int \<Rightarrow> string" where
  "reuseKey_of m rc = (case m (coord_key rc) of None \<Rightarrow> [] | Some slot \<Rightarrow> toString (int slot))"

text \<open>The coordinate for which the cell renderer was invoked.\<close>

definition call_coord :: "cellRendererParams \<Rightarrow> int \<times> int" where
  "call_coord p = (cell_rowIndex p, cell_columnIndex p)"

text \<open>The cell renderer returns elements that carry the key of its argument.\<close>

definition renderer_keeps_key :: "CellRangeRendererParams \<Rightarrow> bool" where
  "renderer_keeps_key P \<longleftrightarrow> (\<forall>p e. cellRenderer P p = Rendered e \<longrightarrow> elem_key e = Some (cell_key p))"

text \<open>
  The invariant of the loop on the cache-reuse path, after the coordinates \<open>pre\<close>,
  from the state \<open>s0\<close>: the cell cache has changed at these coordinates only, an
  entry that was an element has not changed, the cell renderer was invoked once for each
  coordinate whose entry was not an element, its result being stored, and the result array
  holds the entries that are elements, with their keys set.
\<close>

definition cached_inv ::
  "CellRangeRendererParams \<Rightarrow> (string \<rightharpoonup> nat) \<Rightarrow> render_state \<Rightarrow> (int \<times> int) list \<Rightarrow>
   render_state \<times> element list \<Rightarrow> bool" where
  "cached_inv P m s0 pre sa \<longleftrightarrow>
     (\<forall>k. (\<forall>rc \<in> set pre. k \<noteq> coord_key rc) \<longrightarrow> cellCache (fst sa) k = cellCache s0 k) \<and>
     (\<forall>k. truthy (cellCache s0 k) \<longrightarrow> cellCache (fst sa) k = cellCache s0 k) \<and>
     (\<exists>new. cellRenderer_calls (fst sa) = cellRenderer_calls s0 @ new \<and>
        map call_coord new = filter (\<lambda>rc. \<not> truthy (cellCache s0 (coord_key rc))) pre \<and>
        (\<forall>p \<in> set new. cellCache (fst sa) (coord_key (call_coord p)) = cellRenderer P p)) \<and>
     snd sa = concat (map (\<lambda>rc. emitted (with_key (reuseKey_of m rc) (cellCache (fst sa) (coord_key rc)))) pre)"

text \<open>
  \<^verbatim>\<open>parseInt\<close> of the key of an element, for elements whose key is a
  numeral.
\<close>

definition numeric_key :: "element \<Rightarrow> int" where
  "numeric_key e = (case parseInt (elem_key e) of Some v \<Rightarrow> v | None \<Rightarrow> 0)"

text \<open>
  The invariant of the loop when cells carry the keys they are given: the keys of the result
  array are the identity keys of distinct coordinates among those processed.
\<close>

definition keyed_inv ::
  "(string \<rightharpoonup> nat) \<Rightarrow> (int \<times> int) list \<Rightarrow> render_state \<times> element list \<Rightarrow> bool" where
  "keyed_inv m pre sa \<longleftrightarrow>
     (\<exists>coords. distinct coords \<and> set coords \<subseteq> set pre \<and>
        map elem_key (snd sa) = map (\<lambda>rc. Some (reuseKey_of m rc)) coords)"

text \<open>The number of invocations of the cell renderer for a coordinate in a list of invocations.\<close>

definition invocations_at :: "int \<Rightarrow> int \<Rightarrow> cellRendererParams list \<Rightarrow> nat" where
  "invocations_at r c ps = length (filter (\<lambda>p. cell_rowIndex p = r \<and> cell_columnIndex p = c) ps)"

text \<open>The test at lines 179 to 182: in deferred mode, a cell that has not been measured yet.\<close>

definition unmeasured :: "CellRangeRendererParams \<Rightarrow> int \<times> int \<Rightarrow> bool" where
  "unmeasured P rc =
     (case deferredMeasurementCache P of None \<Rightarrow> False | Some has \<Rightarrow> \<not> has (fst rc) (snd rc))"

text \<open>
  The style object of lines 194 to 200, from the offsets and sizes of the two managers and the
  two adjustments.
\<close>

definition computed_style :: "CellRangeRendererParams \<Rightarrow> int \<times> int \<Rightarrow> style" where
  "computed_style P rc =
     \<lparr>height = Px (size' (getSizeAndPositionOfCell (rowSizeAndPositionManager P) (fst rc))),
      left = offset (getSizeAndPositionOfCell (columnSizeAndPositionManager P) (snd rc)) +
             horizontalOffsetAdjustment P,
      position = ''absolute'',
      top' = offset (getSizeAndPositionOfCell (rowSizeAndPositionManager P) (fst rc)) +
             verticalOffsetAdjustment P,
      width = Px (size' (getSizeAndPositionOfCell (columnSizeAndPositionManager P) (snd rc)))\<rparr>"

text \<open>
  The style part of one iteration on a coordinate pair, with the data that the loops look up:
  the style of the cell and the style cache after the iteration.
\<close>

definition style_step ::
  "CellRangeRendererParams \<Rightarrow> bool \<Rightarrow> int \<times> int \<Rightarrow> (string \<rightharpoonup> style) \<Rightarrow> style \<times> (string \<rightharpoonup> style)" where
  "style_step P canCacheStyle rc sc =
     compute_style P canCacheStyle (fst rc)
       (getSizeAndPositionOfCell (rowSizeAndPositionManager P) (fst rc)) (snd rc)
       (getSizeAndPositionOfCell (columnSizeAndPositionManager P) (snd rc)) (coord_key rc) sc"

text \<open>
  The argument that an iteration builds for the cell renderer (lines 206 to 214), for a
  coordinate and a style cache.
\<close>

definition params_for ::
  "CellRangeRendererParams \<Rightarrow> (string \<rightharpoonup> nat) \<Rightarrow> bool \<Rightarrow> (string \<rightharpoonup> style) \<Rightarrow> int \<times> int \<Rightarrow>
   cellRendererParams" where
  "params_for P m canCacheStyle sc rc =
     \<lparr>cell_columnIndex = snd rc,
      cell_isScrolling = isScrolling P,
      cell_isVisible =
        (snd rc \<ge> start (visibleColumnIndices P) \<and> snd rc \<le> stop (visibleColumnIndices P) \<and>
         fst rc \<ge> start (visibleRowIndices P) \<and> fst rc \<le> stop (visibleRowIndices P)),
      cell_key = reuseKey_of m rc,
      cell_parent = parent P,
      cell_rowIndex = fst rc,
      cell_style = fst (style_step P canCacheStyle rc sc)\<rparr>"

text \<open>
  What an iteration makes of a coordinate from the caches of a state (lines 228 to 247): on
  the cache-reuse path the cell-cache entry, or the result of the cell renderer when that
  entry is falsy, copied with the identity key when its key differs; on the other path the
  result of the cell renderer.
\<close>

definition rendered_for ::
  "CellRangeRendererParams \<Rightarrow> (string \<rightharpoonup> nat) \<Rightarrow> bool \<Rightarrow> render_state \<Rightarrow> int \<times> int \<Rightarrow> rendered" where
  "rendered_for P m canCacheStyle st rc =
     (if cache_path P then
        with_key (reuseKey_of m rc)
          (if truthy (cellCache st (coord_key rc)) then cellCache st (coord_key rc)
           else cellRenderer P (params_for P m canCacheStyle (styleCache st) rc))
      else cellRenderer P (params_for P m canCacheStyle (styleCache st) rc))"

text \<open>
  The invariant of the loop on either path, after the coordinates \<open>pre\<close>, from the
  state \<open>s0\<close>: the two caches have changed at these coordinates only, and the
  result array holds, in order, what \<open>rendered_for\<close> gives for them from
  \<open>s0\<close>.
\<close>

definition exact_inv ::
  "CellRangeRendererParams \<Rightarrow> (string \<rightharpoonup> nat) \<Rightarrow> bool \<Rightarrow> render_state \<Rightarrow> (int \<times> int) list \<Rightarrow>
   render_state \<times> element list \<Rightarrow> bool" where
  "exact_inv P m canCacheStyle s0 pre sa \<longleftrightarrow>
     (\<forall>k. (\<forall>rc \<in> set pre. k \<noteq> coord_key rc) \<longrightarrow>
        cellCache (fst sa) k = cellCache s0 k \<and> styleCache (fst sa) k = styleCache s0 k) \<and>
     snd sa = concat (map (\<lambda>rc. emitted (rendered_for P m canCacheStyle s0 rc)) pre)"

text \<open>
  The stores into the style cache that the loop makes over a list of coordinates when
  \<^verbatim>\<open>canCacheStyle\<close> is false.
\<close>

definition style_writes ::
  "CellRangeRendererParams \<Rightarrow> (int \<times> int) list \<Rightarrow> (string \<rightharpoonup> style) \<Rightarrow> (string \<rightharpoonup> style)" where
  "style_writes P xs sc = fold (\<lambda>rc sc'. snd (style_step P False rc sc')) xs sc"

section \<open>Example inputs\<close>

text \<open>A manager of cells of size 10 at offsets 0, 10, 20, and so on.\<close>

definition example_manager :: sizeAndPositionManager where
  "example_manager =
     \<lparr>getSizeAndPositionOfCell = (\<lambda>i. \<lparr>offset = 10 * i, size' = 10\<rparr>), areOffsetsAdjusted = False\<rparr>"

text \<open>A cell renderer that returns an element with the key and the style of its argument.\<close>

definition example_renderer :: "cellRendererParams \<Rightarrow> rendered" where
  "example_renderer p = Rendered (Element (Some (cell_key p)) None (Props (Some (cell_style p)) None))"

text \<open>Rows 0 to 2 of column 0, rows 0 to 1 visible, while scrolling, with no offset adjustment.\<close>

definition example_params :: CellRangeRendererParams where
  "example_params =
     \<lparr>cellRenderer = example_renderer,
      columnSizeAndPositionManager = example_manager,
      columnStartIndex = 0, columnStopIndex = 0,
      deferredMeasurementCache = None,
      horizontalOffsetAdjustment = 0,
      isScrolling = True, isScrollingOptOut = False,
      parent = 0,
      rowSizeAndPositionManager = example_manager,
      rowStartIndex = 0, rowStopIndex = 2,
      verticalOffsetAdjustment = 0,
      visibleColumnIndices = \<lparr>start = 0, stop = 0\<rparr>,
      visibleRowIndices = \<lparr>start = 0, stop = 1\<rparr>,
      production = False\<rparr>"

text \<open>Empty caches, no recycler yet, nothing logged.\<close>

definition initial_state :: render_state where
  "initial_state =
     \<lparr>cellCache = (\<lambda>k. Undefined), cellCache_symbol = None, parent_symbol = None,
      styleCache = Map.empty, warnedAboutMissingStyle = False, console = [],
      cellRenderer_calls = []\<rparr>"

declare toString_nat.simps [simp del]
declare find_new_key.simps [simp del]

section \<open>Auxiliary facts\<close>

lemma of_char_digit_char: "d < 10 \<Longrightarrow> (of_char (digit_char d) :: nat) = 48 + d"
  by (simp add: digit_char_def)

lemma is_digit_digit_char: "d < 10 \<Longrightarrow> is_digit (digit_char d)"
  by (simp add: is_digit_def of_char_digit_char)

lemma toString_nat_digits: "c \<in> set (toString_nat n) \<Longrightarrow> is_digit c"
proof (induction n rule: toString_nat.induct)
  case (1 n)
  show ?case
  proof (cases "n < 10")
    case True
    with "1.prems" show ?thesis by (simp add: toString_nat.simps[of n] is_digit_digit_char)
  next
    case False
    with "1.prems" "1.IH" show ?thesis by (auto simp: toString_nat.simps[of n] is_digit_digit_char)
  qed
qed

lemma toString_nat_nonempty: "toString_nat n \<noteq> []"
  by (subst toString_nat.simps) simp

lemma digits_value_snoc: "digits_value (s @ [c]) = digits_value s * 10 + (of_char c - 48)"
  by (simp add: digits_value_def)

lemma digits_value_toString_nat: "digits_value (toString_nat n) = n"
proof (induction n rule: toString_nat.induct)
  case (1 n)
  show ?case
  proof (cases "n < 10")
    case True
    then show ?thesis by (simp add: toString_nat.simps[of n] digits_value_def of_char_digit_char)
  next
    case False
    then have "digits_value (toString_nat n) = digits_value (toString_nat (n div 10)) * 10 + (of_char (digit_char (n mod 10)) - 48)"
      by (subst toString_nat.simps) (simp add: digits_value_snoc)
    with False "1.IH" show ?thesis by (simp add: of_char_digit_char)
  qed
qed

lemma toString_nat_inj: "toString_nat m = toString_nat n \<Longrightarrow> m = n"
  by (metis digits_value_toString_nat)

lemma not_is_digit_minus: "\<not> is_digit CHR ''-''"
  by (simp add: is_digit_def)

lemma takeWhile_digits: "takeWhile is_digit (toString_nat n @ CHR ''-'' # rest) = toString_nat n"
  by (simp add: takeWhile_append2 toString_nat_digits not_is_digit_minus)

lemma toString_nat_hd: "\<exists>c cs. toString_nat n = c # cs \<and> is_digit c"
  using toString_nat_nonempty[of n] toString_nat_digits[of _ n]
  by (cases "toString_nat n") auto

lemma toString_inj: "toString i = toString j \<Longrightarrow> i = j"
proof -
  assume eq: "toString i = toString j"
  obtain c cs where i: "toString_nat (nat i) = c # cs" "is_digit c" using toString_nat_hd by blast
  obtain d ds where j: "toString_nat (nat j) = d # ds" "is_digit d" using toString_nat_hd by blast
  show ?thesis
  proof (cases "i < 0")
    case True
    then have j0: "j < 0" using eq j not_is_digit_minus by (auto simp: toString_def split: if_splits)
    with True eq have "nat (- i) = nat (- j)" by (auto simp: toString_def dest: toString_nat_inj)
    with True j0 show ?thesis by simp
  next
    case False
    then have j0: "\<not> j < 0" using eq i not_is_digit_minus by (auto simp: toString_def split: if_splits)
    with False eq have "nat i = nat j" by (auto simp: toString_def dest: toString_nat_inj)
    with False j0 show ?thesis by simp
  qed
qed

lemma toString_split:
  "toString i @ CHR ''-'' # r = toString j @ CHR ''-'' # r' \<Longrightarrow> toString i = toString j \<and> r = r'"
proof -
  assume eq: "toString i @ CHR ''-'' # r = toString j @ CHR ''-'' # r'"
  obtain c cs where i: "toString_nat (nat i) = c # cs" "is_digit c" using toString_nat_hd by blast
  obtain d ds where j: "toString_nat (nat j) = d # ds" "is_digit d" using toString_nat_hd by blast
  have nat_case: "toString_nat a = toString_nat b"
    if "toString_nat a @ CHR ''-'' # r = toString_nat b @ CHR ''-'' # r'" for a b
    using takeWhile_digits[of a r] takeWhile_digits[of b r'] that by simp
  have "toString i = toString j"
  proof (cases "i < 0")
    case True
    then have j0: "j < 0" using eq j not_is_digit_minus by (auto simp: toString_def split: if_splits)
    with True eq show ?thesis by (auto simp: toString_def intro: nat_case)
  next
    case False
    then have j0: "\<not> j < 0" using eq i not_is_digit_minus by (auto simp: toString_def split: if_splits)
    with False eq show ?thesis by (auto simp: toString_def intro: nat_case)
  qed
  with eq show ?thesis by simp
qed

lemma getKey_inj: "getKey r c = getKey r' c' \<longleftrightarrow> r = r' \<and> c = c'"
  using toString_split[of r "toString c" r' "toString c'"] toString_inj
  by (auto simp: getKey_def)

lemma fold_product:
  "fold (\<lambda>r. fold (\<lambda>c. f r c) cs) rs = fold (\<lambda>(r, c). f r c) (List.product rs cs)"
  by (induction rs) (auto simp: fold_map comp_def)

lemma foreachKey_fold: "foreachKey rs re cs ce cb = fold cb (rect_keys rs re cs ce)"
  by (simp add: foreachKey_def rect_keys_def rect_cells_def fold_product fold_map comp_def case_prod_unfold)

lemma set_rect_cells: "set (rect_cells rs re cs ce) = {rs..re} \<times> {cs..ce}"
  by (simp add: rect_cells_def)

lemma distinct_rect_cells: "distinct (rect_cells rs re cs ce)"
  by (simp add: rect_cells_def distinct_product)

lemma set_rect_keys: "set (rect_keys rs re cs ce) = (\<lambda>(r, c). getKey r c) ` ({rs..re} \<times> {cs..ce})"
  by (simp add: rect_keys_def set_rect_cells)

lemma getKey_in_rect_keys:
  "getKey r c \<in> set (rect_keys rs re cs ce) \<longleftrightarrow> r \<in> {rs..re} \<and> c \<in> {cs..ce}"
  by (auto simp: set_rect_keys getKey_inj)

lemma distinct_rect_keys: "distinct (rect_keys rs re cs ce)"
  unfolding rect_keys_def
  by (rule distinct_map[THEN iffD2]) (auto simp: distinct_rect_cells inj_on_def getKey_inj)

lemma length_rect_keys: "length (rect_keys rs re cs ce) = nat (re - rs + 1) * nat (ce - cs + 1)"
  by (simp add: rect_keys_def rect_cells_def length_product)

lemma array_truthy_Nil: "\<not> array_truthy [] k"
  by (simp add: array_truthy_def)

lemma array_truthy_set_true:
  "array_truthy (array_set_true a k) j \<longleftrightarrow> j = k \<or> array_truthy a j"
  by (auto simp: array_truthy_def array_set_true_def nth_list_update nth_append nth_Cons')

lemma find_new_key_spec:
  "find_new_key used n = (k, n') \<Longrightarrow>
     n \<le> k \<and> \<not> array_truthy used k \<and> n' = k + 1 \<and> (\<forall>j. n \<le> j \<and> j < k \<longrightarrow> array_truthy used j)"
proof (induction used n rule: find_new_key.induct)
  case (1 used n)
  show ?case
  proof (cases "array_truthy used n")
    case False
    with "1.prems" show ?thesis by (auto simp: find_new_key.simps[of used n])
  next
    case True
    with "1.prems" have "find_new_key used (n + 1) = (k, n')"
      by (simp add: find_new_key.simps[of used n])
    with "1.IH" True have ih: "n + 1 \<le> k" "\<not> array_truthy used k" "n' = k + 1"
      "\<forall>j. n + 1 \<le> j \<and> j < k \<longrightarrow> array_truthy used j" by auto
    have "array_truthy used j" if "n \<le> j" "j < k" for j
      using that True ih(4) by (cases "j = n") auto
    with ih show ?thesis by auto
  qed
qed

lemma carry_forward_step:
  "newMap (carry_forward lm a s) = (\<lambda>k. if k = a \<and> lm k \<noteq> None then lm k else newMap s k)"
  "array_truthy (usedKeys (carry_forward lm a s)) v \<longleftrightarrow> array_truthy (usedKeys s) v \<or> lm a = Some v"
  "nextKey (carry_forward lm a s) = nextKey s"
  by (auto simp: carry_forward_def array_truthy_set_true fun_eq_iff split: option.splits)

lemma fold_carry_forward:
  "newMap (fold (carry_forward lm) ks s) = (\<lambda>k. if k \<in> set ks \<and> lm k \<noteq> None then lm k else newMap s k)"
  "array_truthy (usedKeys (fold (carry_forward lm) ks s)) v \<longleftrightarrow>
     array_truthy (usedKeys s) v \<or> (\<exists>k \<in> set ks. lm k = Some v)"
  "nextKey (fold (carry_forward lm) ks s) = nextKey s"
proof (induction ks arbitrary: s)
  case Nil
  { case 1 show ?case by simp }
  { case 2 show ?case by simp }
  { case 3 show ?case by simp }
next
  case (Cons a ks)
  { case 1 show ?case by (auto simp: Cons.IH(1) carry_forward_step fun_eq_iff) }
  { case 2 show ?case by (auto simp: Cons.IH(2) carry_forward_step) }
  { case 3 show ?case by (simp add: Cons.IH(3) carry_forward_step) }
qed

lemma assign_key_keeps:
  "newMap s k = Some v \<Longrightarrow> newMap (assign_key key s) k = Some v"
  by (auto simp: assign_key_def split: option.splits prod.splits)

lemma assign_key_dom: "dom (newMap (assign_key key s)) = insert key (dom (newMap s))"
  by (auto simp: assign_key_def split: option.splits prod.splits)

lemma assign_key_used_mono:
  "array_truthy (usedKeys s) v \<Longrightarrow> array_truthy (usedKeys (assign_key key s)) v"
  by (auto simp: assign_key_def array_truthy_set_true split: option.splits prod.splits)

lemma assign_key_fresh:
  assumes "pass_inv s" "newMap s key = None"
  shows "\<exists>v. newMap (assign_key key s) key = Some v \<and> 1 \<le> v \<and> v \<notin> ran (newMap s) \<and>
           (\<forall>j. 1 \<le> j \<and> j < v \<longrightarrow> j \<in> ran (newMap s)) \<and>
           newMap (assign_key key s) = (newMap s)(key \<mapsto> v) \<and>
           nextKey (assign_key key s) = v + 1 \<and>
           (\<forall>j. array_truthy (usedKeys (assign_key key s)) j \<longleftrightarrow> j = v \<or> array_truthy (usedKeys s) j)"
proof -
  obtain v n' where f: "find_new_key (usedKeys s) (nextKey s) = (v, n')"
    by (cases "find_new_key (usedKeys s) (nextKey s)")
  from find_new_key_spec[OF f] have sp: "nextKey s \<le> v" "\<not> array_truthy (usedKeys s) v" "n' = v + 1"
    "\<forall>j. nextKey s \<le> j \<and> j < v \<longrightarrow> array_truthy (usedKeys s) j" by auto
  from assms(1) have inv: "\<And>j. array_truthy (usedKeys s) j \<longleftrightarrow> j \<in> ran (newMap s)"
    "1 \<le> nextKey s" "\<And>j. 1 \<le> j \<Longrightarrow> j < nextKey s \<Longrightarrow> array_truthy (usedKeys s) j"
    by (auto simp: pass_inv_def)
  have below: "j \<in> ran (newMap s)" if "1 \<le> j" "j < v" for j
    using that sp(4) inv(1) inv(3)[of j] by (cases "j < nextKey s") auto
  have "1 \<le> v" using sp(1) inv(2) by simp
  moreover have "v \<notin> ran (newMap s)" using sp(2) inv(1) by simp
  ultimately show ?thesis
    using assms(2) f sp(3) below
    by (auto simp: assign_key_def array_truthy_set_true)
qed

lemma assign_key_pass_inv:
  assumes "pass_inv s"
  shows "pass_inv (assign_key key s)"
proof (cases "newMap s key")
  case (Some v)
  then have m: "(newMap s)(key \<mapsto> v) = newMap s" by (auto simp: fun_eq_iff)
  from Some have "v \<in> ran (newMap s)" by (auto simp: ran_def)
  with assms Some m show ?thesis
    by (auto simp: pass_inv_def assign_key_def array_truthy_set_true)
next
  case None
  from assign_key_fresh[OF assms None] obtain v where v:
    "1 \<le> v" "v \<notin> ran (newMap s)" "\<forall>j. 1 \<le> j \<and> j < v \<longrightarrow> j \<in> ran (newMap s)"
    "newMap (assign_key key s) = (newMap s)(key \<mapsto> v)" "nextKey (assign_key key s) = v + 1"
    "\<forall>j. array_truthy (usedKeys (assign_key key s)) j \<longleftrightarrow> j = v \<or> array_truthy (usedKeys s) j"
    by blast
  from assms have inv: "\<And>j. array_truthy (usedKeys s) j \<longleftrightarrow> j \<in> ran (newMap s)"
    "inj_on (newMap s) (dom (newMap s))"
    by (auto simp: pass_inv_def)
  have r: "ran ((newMap s)(key \<mapsto> v)) = insert v (ran (newMap s))"
    using None by simp
  have "inj_on ((newMap s)(key \<mapsto> v)) (dom ((newMap s)(key \<mapsto> v)))"
    using inv(2) v(2) None by (auto simp: inj_on_def ran_def dom_def)
  moreover have "\<forall>j. 1 \<le> j \<and> j < v + 1 \<longrightarrow> array_truthy (usedKeys (assign_key key s)) j"
  proof (intro allI impI)
    fix j assume "1 \<le> j \<and> j < v + 1"
    then show "array_truthy (usedKeys (assign_key key s)) j"
      using v(3) v(6) inv(1) by (cases "j = v") auto
  qed
  ultimately show ?thesis
    using v(1) v(4) v(5) v(6) inv(1) r by (simp add: pass_inv_def)
qed

lemma fold_assign_key_pass_inv: "pass_inv s \<Longrightarrow> pass_inv (fold assign_key ks s)"
  by (induction ks arbitrary: s) (auto simp: assign_key_pass_inv)

lemma fold_assign_key_keeps:
  "newMap s k = Some v \<Longrightarrow> newMap (fold assign_key ks s) k = Some v"
  by (induction ks arbitrary: s) (auto simp: assign_key_keeps)

lemma fold_assign_key_dom: "dom (newMap (fold assign_key ks s)) = dom (newMap s) \<union> set ks"
  by (induction ks arbitrary: s) (auto simp: assign_key_dom)

lemma fold_assign_key_used_mono:
  "array_truthy (usedKeys s) v \<Longrightarrow> array_truthy (usedKeys (fold assign_key ks s)) v"
  by (induction ks arbitrary: s) (auto simp: assign_key_used_mono)

text \<open>A key given out by the second pass has every smaller positive key in use at the end.\<close>

lemma fold_assign_key_fresh:
  assumes "pass_inv s" "k \<in> set ks" "newMap s k = None"
  shows "\<exists>v. newMap (fold assign_key ks s) k = Some v \<and> 1 \<le> v \<and>
           (\<forall>j. 1 \<le> j \<and> j \<le> v \<longrightarrow> j \<in> ran (newMap (fold assign_key ks s)))"
  using assms
proof (induction ks arbitrary: s)
  case Nil
  then show ?case by simp
next
  case (Cons a ks)
  let ?s' = "assign_key a s"
  have inv': "pass_inv ?s'" using Cons.prems(1) by (rule assign_key_pass_inv)
  show ?case
  proof (cases "newMap ?s' k")
    case None
    then have "k \<noteq> a" using assign_key_dom[of a s] by auto
    with Cons.prems have "k \<in> set ks" by simp
    from Cons.IH[OF inv' this None] show ?thesis by simp
  next
    case (Some v)
    have "k = a"
    proof (rule ccontr)
      assume "k \<noteq> a"
      then have "k \<notin> dom (newMap ?s')" using Cons.prems(3) assign_key_dom[of a s] by auto
      with Some show False by auto
    qed
    with Cons.prems(3) have none: "newMap s a = None" by simp
    from assign_key_fresh[OF Cons.prems(1) none] Some \<open>k = a\<close> have v:
      "1 \<le> v" "\<forall>j. 1 \<le> j \<and> j < v \<longrightarrow> j \<in> ran (newMap s)"
      "\<forall>j. array_truthy (usedKeys ?s') j \<longleftrightarrow> j = v \<or> array_truthy (usedKeys s) j"
      by auto
    have fin: "pass_inv (fold assign_key ks ?s')" using inv' by (rule fold_assign_key_pass_inv)
    have "j \<in> ran (newMap (fold assign_key ks ?s'))" if "1 \<le> j" "j \<le> v" for j
    proof -
      have "array_truthy (usedKeys ?s') j"
        using that v(2) v(3) Cons.prems(1) by (cases "j = v") (auto simp: pass_inv_def)
      then have "array_truthy (usedKeys (fold assign_key ks ?s')) j" by (rule fold_assign_key_used_mono)
      with fin show ?thesis by (simp add: pass_inv_def)
    qed
    with v(1) fold_assign_key_keeps[OF Some, of ks] show ?thesis by simp
  qed
qed

lemma first_pass_newMap:
  "newMap (first_pass this rs re cs ce) =
     (\<lambda>k. if k \<in> set (rect_keys rs re cs ce) then lastMap this k else None)"
  by (auto simp: first_pass_def foreachKey_fold fold_carry_forward fun_eq_iff)

lemma first_pass_pass_inv:
  assumes "inj_on (lastMap this) (dom (lastMap this))"
  shows "pass_inv (first_pass this rs re cs ce)"
proof -
  let ?s = "first_pass this rs re cs ce"
  have u: "array_truthy (usedKeys ?s) v \<longleftrightarrow> (\<exists>k \<in> set (rect_keys rs re cs ce). lastMap this k = Some v)" for v
    by (simp add: first_pass_def foreachKey_fold fold_carry_forward array_truthy_Nil)
  have n: "nextKey ?s = 1"
    by (simp add: first_pass_def foreachKey_fold fold_carry_forward)
  have r: "v \<in> ran (newMap ?s) \<longleftrightarrow> (\<exists>k \<in> set (rect_keys rs re cs ce). lastMap this k = Some v)" for v
    by (auto simp: first_pass_newMap ran_def split: if_splits)
  have "inj_on (newMap ?s) (dom (newMap ?s))"
    using assms by (auto simp: first_pass_newMap inj_on_def dom_def split: if_splits)
  with u n r show ?thesis by (auto simp: pass_inv_def)
qed

lemma getReusableKeyMap_fold:
  "getReusableKeyMap this rs re cs ce =
     (newMap (fold assign_key (rect_keys rs re cs ce) (first_pass this rs re cs ce)),
      this\<lparr>lastMap := newMap (fold assign_key (rect_keys rs re cs ce) (first_pass this rs re cs ce))\<rparr>)"
  by (simp add: getReusableKeyMap_def foreachKey_fold Let_def)

lemma getReusableKeyMap_lastMap:
  "lastMap (snd (getReusableKeyMap this rs re cs ce)) = fst (getReusableKeyMap this rs re cs ce)"
  by (simp add: getReusableKeyMap_fold)

lemma getReusableKeyMap_dom:
  "dom (fst (getReusableKeyMap this rs re cs ce)) = set (rect_keys rs re cs ce)"
proof -
  have "dom (newMap (first_pass this rs re cs ce)) \<subseteq> set (rect_keys rs re cs ce)"
    by (auto simp: first_pass_newMap dom_def split: if_splits)
  then show ?thesis
    by (auto simp: getReusableKeyMap_fold fold_assign_key_dom)
qed

lemma getReusableKeyMap_carried:
  assumes "k \<in> set (rect_keys rs re cs ce)" "lastMap this k = Some v"
  shows "fst (getReusableKeyMap this rs re cs ce) k = Some v"
  using assms by (simp add: getReusableKeyMap_fold fold_assign_key_keeps first_pass_newMap)

lemma getReusableKeyMap_inj:
  assumes "inj_on (lastMap this) (dom (lastMap this))"
  shows "inj_on (fst (getReusableKeyMap this rs re cs ce)) (set (rect_keys rs re cs ce))"
  using fold_assign_key_pass_inv[OF first_pass_pass_inv[OF assms], of "rect_keys rs re cs ce" rs re cs ce]
    getReusableKeyMap_dom[of this rs re cs ce]
  by (simp add: getReusableKeyMap_fold pass_inv_def)

lemma getReusableKeyMap_fresh:
  assumes "inj_on (lastMap this) (dom (lastMap this))"
    and "k \<in> set (rect_keys rs re cs ce)" "lastMap this k = None"
  shows "\<exists>v. fst (getReusableKeyMap this rs re cs ce) k = Some v \<and> 1 \<le> v \<and>
           (\<forall>j. 1 \<le> j \<and> j \<le> v \<longrightarrow> j \<in> ran (fst (getReusableKeyMap this rs re cs ce)))"
  using fold_assign_key_fresh[OF first_pass_pass_inv[OF assms(1)] assms(2), of rs re cs ce] assms(2,3)
  by (simp add: getReusableKeyMap_fold first_pass_newMap)

lemma card_ran_le:
  assumes "finite (dom m)"
  shows "finite (ran m) \<and> card (ran m) \<le> card (dom m)"
proof -
  have "ran m = (\<lambda>k. the (m k)) ` dom m" by (force simp: ran_def dom_def image_iff)
  with assms show ?thesis by (simp add: card_image_le)
qed

lemma getReusableKeyMap_fresh_le:
  assumes "inj_on (lastMap this) (dom (lastMap this))"
    and "k \<in> set (rect_keys rs re cs ce)" "lastMap this k = None"
    and "fst (getReusableKeyMap this rs re cs ce) k = Some v"
  shows "1 \<le> v \<and> v \<le> length (rect_keys rs re cs ce)"
proof -
  let ?m = "fst (getReusableKeyMap this rs re cs ce)"
  from getReusableKeyMap_fresh[OF assms(1-3)] assms(4)
  have v: "1 \<le> v" "\<forall>j. 1 \<le> j \<and> j \<le> v \<longrightarrow> j \<in> ran ?m" by auto
  have fin: "finite (dom ?m)" by (simp add: getReusableKeyMap_dom)
  have "{1..v} \<subseteq> ran ?m" using v(2) by auto
  then have "card {1..v} \<le> card (ran ?m)" using card_ran_le[OF fin] by (intro card_mono) auto
  also have "\<dots> \<le> card (dom ?m)" using card_ran_le[OF fin] by simp
  also have "\<dots> = length (rect_keys rs re cs ce)"
    by (simp add: getReusableKeyMap_dom distinct_card distinct_rect_keys)
  finally show ?thesis using v(1) by simp
qed

lemma getReusableKeyMap_key_inv:
  assumes "key_inv this"
  shows "key_inv (snd (getReusableKeyMap this rs re cs ce))"
proof -
  let ?m = "fst (getReusableKeyMap this rs re cs ce)"
  from assms have inj: "inj_on (lastMap this) (dom (lastMap this))" and pos: "\<forall>v \<in> ran (lastMap this). 1 \<le> v"
    by (auto simp: key_inv_def)
  have "1 \<le> v" if "?m k = Some v" for k v
  proof -
    from that have k: "k \<in> set (rect_keys rs re cs ce)" using getReusableKeyMap_dom[of this rs re cs ce] by auto
    show ?thesis
    proof (cases "lastMap this k")
      case None
      from getReusableKeyMap_fresh_le[OF inj k None that] show ?thesis by simp
    next
      case (Some w)
      from getReusableKeyMap_carried[OF k Some] that pos Some show ?thesis by (auto simp: ran_def)
    qed
  qed
  then have "\<forall>v \<in> ran ?m. 1 \<le> v" by (auto simp: ran_def)
  with getReusableKeyMap_inj[OF inj, of rs re cs ce] show ?thesis
    by (simp add: key_inv_def getReusableKeyMap_lastMap getReusableKeyMap_dom)
qed

lemma reachable_key_inv: "reachable this \<Longrightarrow> key_inv this"
  by (induction rule: reachable.induct)
     (auto simp: getReusableKeyMap_key_inv, simp add: key_inv_def new_ReusableKeyCache_def)

lemma getReusableKeyMap_total:
  assumes "r \<in> {rs..re}" "c \<in> {cs..ce}"
  shows "\<exists>k. fst (getReusableKeyMap this rs re cs ce) (getKey r c) = Some k"
proof -
  have "getKey r c \<in> dom (fst (getReusableKeyMap this rs re cs ce))"
    using assms by (simp add: getReusableKeyMap_dom getKey_in_rect_keys)
  then show ?thesis by auto
qed

lemma getReusableKeyMap_split_at:
  assumes "i < length (rect_keys rs re cs ce)"
  shows "fst (getReusableKeyMap this rs re cs ce) =
     newMap (fold assign_key (drop (Suc i) (rect_keys rs re cs ce))
       (assign_key (rect_keys rs re cs ce ! i) (state_before this rs re cs ce i)))"
proof -
  let ?ks = "rect_keys rs re cs ce"
  have "?ks = take i ?ks @ ?ks ! i # drop (Suc i) ?ks" using assms by (rule id_take_nth_drop)
  then have "fold assign_key ?ks (first_pass this rs re cs ce) =
     fold assign_key (take i ?ks @ ?ks ! i # drop (Suc i) ?ks) (first_pass this rs re cs ce)" by simp
  then show ?thesis by (simp add: getReusableKeyMap_fold state_before_def)
qed

lemma state_before_pass_inv:
  "inj_on (lastMap this) (dom (lastMap this)) \<Longrightarrow> pass_inv (state_before this rs re cs ce i)"
  unfolding state_before_def by (intro fold_assign_key_pass_inv first_pass_pass_inv)

lemma product_Nil_right: "List.product xs [] = []"
  by (induction xs) simp_all

lemma rect_keys_empty: "re < rs \<or> ce < cs \<Longrightarrow> rect_keys rs re cs ce = []"
  by (auto simp: rect_keys_def rect_cells_def product_Nil_right)

lemma getReusableKeyMap_empty_rect:
  assumes "re < rs \<or> ce < cs"
  shows "snd (getReusableKeyMap this rs re cs ce) = new_ReusableKeyCache"
proof -
  have "newMap (first_pass this rs re cs ce) = Map.empty"
    by (simp add: first_pass_newMap rect_keys_empty[OF assms])
  then show ?thesis
    by (simp add: getReusableKeyMap_fold rect_keys_empty[OF assms] new_ReusableKeyCache_def)
qed

lemma fold_assign_key_sequential:
  assumes "distinct ks" "set ks \<inter> dom (newMap s) = {}"
    "\<forall>j \<ge> nextKey s. \<not> array_truthy (usedKeys s) j" "i < length ks"
  shows "newMap (fold assign_key ks s) (ks ! i) = Some (nextKey s + i)"
  using assms
proof (induction ks arbitrary: s i)
  case Nil
  then show ?case by simp
next
  case (Cons a ks)
  let ?n = "nextKey s"
  from Cons.prems(2) have none: "newMap s a = None" by auto
  from Cons.prems(3) have f: "find_new_key (usedKeys s) ?n = (?n, ?n + 1)"
    by (simp add: find_new_key.simps[of "usedKeys s" ?n])
  have s': "newMap (assign_key a s) = (newMap s)(a \<mapsto> ?n)" "nextKey (assign_key a s) = ?n + 1"
    "usedKeys (assign_key a s) = array_set_true (usedKeys s) ?n"
    using none f by (simp_all add: assign_key_def)
  show ?case
  proof (cases i)
    case 0
    have "newMap (assign_key a s) a = Some ?n" by (simp add: s')
    from fold_assign_key_keeps[OF this, of ks] 0 show ?thesis by simp
  next
    case (Suc i')
    have "newMap (fold assign_key ks (assign_key a s)) (ks ! i') = Some (nextKey (assign_key a s) + i')"
    proof (rule Cons.IH)
      show "distinct ks" using Cons.prems(1) by simp
      show "set ks \<inter> dom (newMap (assign_key a s)) = {}" using Cons.prems(1,2) by (auto simp: s')
      show "\<forall>j\<ge>nextKey (assign_key a s). \<not> array_truthy (usedKeys (assign_key a s)) j"
        using Cons.prems(3) by (auto simp: s' array_truthy_set_true)
      show "i' < length ks" using Cons.prems(4) Suc by simp
    qed
    with Suc show ?thesis by (simp add: s')
  qed
qed

lemma getReusableKeyMap_new_sequential:
  assumes "i < length (rect_keys rs re cs ce)"
  shows "fst (getReusableKeyMap new_ReusableKeyCache rs re cs ce) (rect_keys rs re cs ce ! i) = Some (i + 1)"
proof -
  let ?s = "first_pass new_ReusableKeyCache rs re cs ce"
  have m: "newMap ?s = Map.empty" by (simp add: first_pass_newMap new_ReusableKeyCache_def fun_eq_iff)
  have n: "nextKey ?s = 1" by (simp add: first_pass_def foreachKey_fold fold_carry_forward)
  have u: "\<not> array_truthy (usedKeys ?s) j" for j
    by (simp add: first_pass_def foreachKey_fold fold_carry_forward array_truthy_Nil new_ReusableKeyCache_def)
  have "newMap (fold assign_key (rect_keys rs re cs ce) ?s) (rect_keys rs re cs ce ! i) = Some (nextKey ?s + i)"
    by (rule fold_assign_key_sequential) (simp_all add: distinct_rect_keys m u assms)
  then show ?thesis by (simp add: getReusableKeyMap_fold n)
qed

lemma fold_result_append:
  "fold_result f (xs @ ys) s =
     (case fold_result f xs s of Inl e \<Rightarrow> Inl e | Inr s' \<Rightarrow> fold_result f ys s')"
  by (induction xs arbitrary: s) (auto split: sum.splits)

lemma fold_result_product:
  "fold_result (\<lambda>r. fold_result (f r) cs) rs s = fold_result (\<lambda>rc. f (fst rc) (snd rc)) (List.product rs cs) s"
proof (induction rs arbitrary: s)
  case Nil
  then show ?case by simp
next
  case (Cons r rs)
  have "fold_result (\<lambda>rc. f (fst rc) (snd rc)) (map (Pair r) cs) t = fold_result (f r) cs t" for t
    by (induction cs arbitrary: t) (auto split: sum.splits)
  with Cons show ?case by (simp add: fold_result_append split: sum.splits)
qed

lemma render_rows_flat:
  "render_rows P m canCacheStyle st =
     fold_result (render_coord P m canCacheStyle)
       (rect_cells (rowStartIndex P) (rowStopIndex P) (columnStartIndex P) (columnStopIndex P)) (st, [])"
  unfolding render_rows_def rect_cells_def render_coord_def
  by (rule fold_result_product)

lemma fold_result_snoc_Inr:
  "fold_result f (xs @ [x]) s = Inr b \<longleftrightarrow> (\<exists>s'. fold_result f xs s = Inr s' \<and> f x s' = Inr b)"
  by (auto simp: fold_result_append split: sum.splits)

lemma fold_result_invariant:
  assumes "fold_result f xs a = Inr b"
    and "Q [] a"
    and "\<And>pre x post s s'. xs = pre @ x # post \<Longrightarrow> Q pre s \<Longrightarrow> f x s = Inr s' \<Longrightarrow> Q (pre @ [x]) s'"
  shows "Q xs b"
proof -
  have "\<forall>post b'. xs = pre @ post \<longrightarrow> fold_result f pre a = Inr b' \<longrightarrow> Q pre b'" for pre
  proof (induction pre rule: rev_induct)
    case Nil
    then show ?case using assms(2) by simp
  next
    case (snoc x pre)
    show ?case
    proof (intro allI impI)
      fix post b' assume xs: "xs = (pre @ [x]) @ post" and f: "fold_result f (pre @ [x]) a = Inr b'"
      from f obtain s where s: "fold_result f pre a = Inr s" "f x s = Inr b'"
        by (auto simp: fold_result_snoc_Inr)
      from xs have xs': "xs = pre @ x # post" by simp
      with snoc s(1) have "Q pre s" by blast
      from assms(3)[OF xs' this s(2)] show "Q (pre @ [x]) b'" .
    qed
  qed
  from this[of xs] assms(1) show ?thesis by simp
qed

lemma render_cell_returns:
  "m (getKey r c) = Some slot \<Longrightarrow> \<exists>b. render_cell P m cc r d c a = Inr b"
  by (auto simp: render_cell_def Let_def split: rendered.splits)

lemma fold_render_coord_returns:
  "\<forall>rc \<in> set xs. getKey (fst rc) (snd rc) \<in> dom m \<Longrightarrow> \<exists>b. fold_result (render_coord P m cc) xs a = Inr b"
proof (induction xs arbitrary: a)
  case Nil
  then show ?case by simp
next
  case (Cons x xs)
  then obtain slot where "m (getKey (fst x) (snd x)) = Some slot" by auto
  from render_cell_returns[of m "fst x" "snd x" slot P cc _ a, OF this]
  obtain b where "render_coord P m cc x a = Inr b"
    unfolding render_coord_def by blast
  with Cons show ?case by simp
qed

lemma render_rows_returns:
  assumes "set (rect_keys (rowStartIndex P) (rowStopIndex P) (columnStartIndex P) (columnStopIndex P)) \<subseteq> dom m"
  shows "\<exists>st' cells. render_rows P m cc st = Inr (st', cells)"
proof -
  have "\<forall>rc \<in> set (rect_cells (rowStartIndex P) (rowStopIndex P) (columnStartIndex P) (columnStopIndex P)).
          getKey (fst rc) (snd rc) \<in> dom m"
    using assms by (auto simp: rect_keys_def case_prod_unfold)
  from fold_render_coord_returns[OF this, of P cc "(st, [])"] show ?thesis
    by (auto simp: render_rows_flat)
qed

text \<open>The loop body neither reads nor writes the two recycler slots.\<close>

lemma compute_cell_slots:
  "compute_cell P k rk p (st\<lparr>cellCache_symbol := x, parent_symbol := y\<rparr>) =
     (fst (compute_cell P k rk p st), (snd (compute_cell P k rk p st))\<lparr>cellCache_symbol := x, parent_symbol := y\<rparr>)"
proof (cases "cache_path P")
  case True
  then have c: "((isScrollingOptOut P \<or> isScrolling P) \<and>
      horizontalOffsetAdjustment P = 0 \<and> verticalOffsetAdjustment P = 0) = True"
    by (simp add: cache_path_def)
  show ?thesis unfolding compute_cell_def c
    by (cases "truthy (cellCache st k)") (simp_all add: Let_def split: rendered.splits)
next
  case False
  then have c: "((isScrollingOptOut P \<or> isScrolling P) \<and>
      horizontalOffsetAdjustment P = 0 \<and> verticalOffsetAdjustment P = 0) = False"
    by (simp add: cache_path_def)
  show ?thesis unfolding compute_cell_def c by simp
qed

lemma warnAboutMissingStyle_slots:
  "warnAboutMissingStyle b e (st\<lparr>cellCache_symbol := x, parent_symbol := y\<rparr>) =
     (warnAboutMissingStyle b e st)\<lparr>cellCache_symbol := x, parent_symbol := y\<rparr>"
  by (simp add: warnAboutMissingStyle_def Let_def split: option.splits)

lemma render_cell_slots:
  "render_cell P m cc r d c (st\<lparr>cellCache_symbol := x, parent_symbol := y\<rparr>, acc) =
     map_sum id (\<lambda>sa. ((fst sa)\<lparr>cellCache_symbol := x, parent_symbol := y\<rparr>, snd sa))
       (render_cell P m cc r d c (st, acc))"
proof (cases "m (getKey r c)")
  case None
  then show ?thesis by (simp add: render_cell_def Let_def)
next
  case (Some slot)
  have upd: "st\<lparr>cellCache_symbol := x, parent_symbol := y, styleCache := sc\<rparr> =
      st\<lparr>styleCache := sc, cellCache_symbol := x, parent_symbol := y\<rparr>" for sc
    by simp
  show ?thesis
    unfolding render_cell_def Let_def
    by (simp only: fst_conv snd_conv Some option.case upd compute_cell_slots render_state.simps)
       (simp add: warnAboutMissingStyle_slots split: rendered.splits)
qed

lemma fold_render_coord_slots:
  "fold_result (render_coord P m cc) xs (st\<lparr>cellCache_symbol := x, parent_symbol := y\<rparr>, acc) =
     map_sum id (\<lambda>sa. ((fst sa)\<lparr>cellCache_symbol := x, parent_symbol := y\<rparr>, snd sa))
       (fold_result (render_coord P m cc) xs (st, acc))"
proof (induction xs arbitrary: st acc)
  case Nil
  then show ?case by simp
next
  case (Cons a xs)
  show ?case
  proof (cases "render_coord P m cc a (st, acc)")
    case (Inl e)
    then show ?thesis by (simp add: render_coord_def render_cell_slots)
  next
    case (Inr b)
    obtain s' acc' where b: "b = (s', acc')" by (cases b)
    with Inr Cons[of s' acc'] show ?thesis by (simp add: render_coord_def render_cell_slots)
  qed
qed

lemma render_rows_slots:
  "render_rows P m cc (st\<lparr>cellCache_symbol := x, parent_symbol := y\<rparr>) =
     map_sum id (\<lambda>sa. ((fst sa)\<lparr>cellCache_symbol := x, parent_symbol := y\<rparr>, snd sa))
       (render_rows P m cc st)"
  by (simp add: render_rows_flat fold_render_coord_slots)

lemma mset_sort_insert: "mset (sort_insert cmp x xs) = add_mset x (mset xs)"
  by (induction xs) auto

lemma mset_array_sort: "mset (array_sort cmp xs) = mset xs"
  unfolding array_sort_def by (induction xs) (auto simp: mset_sort_insert)

lemma compute_cell_cached:
  assumes "cache_path P"
  shows "compute_cell P k rk p st =
     (if truthy (cellCache st k) then (with_key rk (cellCache st k), st)
      else (with_key rk (cellRenderer P p),
            st\<lparr>cellCache := (cellCache st)(k := cellRenderer P p),
               cellRenderer_calls := cellRenderer_calls st @ [p]\<rparr>))"
proof -
  from assms have c: "((isScrollingOptOut P \<or> isScrolling P) \<and>
      horizontalOffsetAdjustment P = 0 \<and> verticalOffsetAdjustment P = 0) = True"
    by (simp add: cache_path_def)
  show ?thesis unfolding compute_cell_def c
    by (cases "truthy (cellCache st k)") (simp_all add: Let_def with_key_def split: rendered.splits)
qed

lemma compute_cell_fresh:
  assumes "\<not> cache_path P"
  shows "compute_cell P k rk p st =
     (cellRenderer P p, st\<lparr>cellRenderer_calls := cellRenderer_calls st @ [p]\<rparr>)"
proof -
  from assms have c: "((isScrollingOptOut P \<or> isScrolling P) \<and>
      horizontalOffsetAdjustment P = 0 \<and> verticalOffsetAdjustment P = 0) = False"
    by (simp add: cache_path_def)
  show ?thesis unfolding compute_cell_def c by simp
qed

lemma warnAboutMissingStyle_fields:
  "cellCache (warnAboutMissingStyle b e st) = cellCache st"
  "styleCache (warnAboutMissingStyle b e st) = styleCache st"
  "cellRenderer_calls (warnAboutMissingStyle b e st) = cellRenderer_calls st"
  by (simp_all add: warnAboutMissingStyle_def Let_def split: option.splits)

text \<open>What one iteration does to the cell cache, the list of invocations and the result array.\<close>

lemma render_cell_effect:
  assumes "render_cell P m cc r d c (st, acc) = Inr (st', acc')"
  shows "\<exists>slot p. m (getKey r c) = Some slot \<and>
      cell_rowIndex p = r \<and> cell_columnIndex p = c \<and> cell_key p = toString (int slot) \<and>
      (if cache_path P then
         (if truthy (cellCache st (getKey r c))
          then cellCache st' = cellCache st \<and> cellRenderer_calls st' = cellRenderer_calls st \<and>
               acc' = acc @ emitted (with_key (toString (int slot)) (cellCache st (getKey r c)))
          else cellCache st' = (cellCache st)(getKey r c := cellRenderer P p) \<and>
               cellRenderer_calls st' = cellRenderer_calls st @ [p] \<and>
               acc' = acc @ emitted (with_key (toString (int slot)) (cellRenderer P p)))
       else cellCache st' = cellCache st \<and> cellRenderer_calls st' = cellRenderer_calls st @ [p] \<and>
            acc' = acc @ emitted (cellRenderer P p))"
proof -
  from assms obtain slot where slot: "m (getKey r c) = Some slot"
    by (cases "m (getKey r c)") (auto simp: render_cell_def Let_def)
  define columnDatum where "columnDatum = getSizeAndPositionOfCell (columnSizeAndPositionManager P) c"
  define styled where "styled = compute_style P cc r d c columnDatum (getKey r c) (styleCache st)"
  define p where "p = \<lparr>cell_columnIndex = c, cell_isScrolling = isScrolling P,
     cell_isVisible = (c \<ge> start (visibleColumnIndices P) \<and> c \<le> stop (visibleColumnIndices P) \<and>
        r \<ge> start (visibleRowIndices P) \<and> r \<le> stop (visibleRowIndices P)),
     cell_key = toString (int slot), cell_parent = parent P, cell_rowIndex = r,
     cell_style = fst styled\<rparr>"
  define content where "content = compute_cell P (getKey r c) (toString (int slot)) p (st\<lparr>styleCache := snd styled\<rparr>)"
  have rc: "render_cell P m cc r d c (st, acc) =
      (case fst content of
         Rendered renderedCell \<Rightarrow>
           Inr (if production P then snd content
                else warnAboutMissingStyle (production P) renderedCell (snd content),
                acc @ [renderedCell])
       | other \<Rightarrow> Inr (snd content, acc))"
    unfolding render_cell_def Let_def content_def p_def styled_def columnDatum_def
    by (simp add: slot split: rendered.splits)
  have st': "cellCache st' = cellCache (snd content)" "cellRenderer_calls st' = cellRenderer_calls (snd content)"
    and acc': "acc' = acc @ emitted (fst content)"
    using assms unfolding rc
    by (auto simp: emitted_def warnAboutMissingStyle_fields split: rendered.splits if_splits)
  have p: "cell_rowIndex p = r" "cell_columnIndex p = c" "cell_key p = toString (int slot)"
    by (simp_all add: p_def)
  show ?thesis
  proof (cases "cache_path P")
    case True
    show ?thesis
      using slot p st' acc' True
      unfolding content_def compute_cell_cached[OF True]
      by (intro exI[of _ slot] exI[of _ p]) (simp split: if_splits)
  next
    case False
    show ?thesis
      using slot p st' acc' False
      unfolding content_def compute_cell_fresh[OF False]
      by (intro exI[of _ slot] exI[of _ p]) simp
  qed
qed

lemma coord_key_inj: "coord_key a = coord_key b \<longleftrightarrow> a = b"
  by (cases a, cases b) (simp add: coord_key_def getKey_inj)

lemma render_coord_effect:
  assumes "render_coord P m cc x (st, acc) = Inr (st', acc')"
  shows "\<exists>p. coord_key x \<in> dom m \<and> call_coord p = x \<and> cell_key p = reuseKey_of m x \<and>
      (if cache_path P then
         (if truthy (cellCache st (coord_key x))
          then cellCache st' = cellCache st \<and> cellRenderer_calls st' = cellRenderer_calls st \<and>
               acc' = acc @ emitted (with_key (reuseKey_of m x) (cellCache st (coord_key x)))
          else cellCache st' = (cellCache st)(coord_key x := cellRenderer P p) \<and>
               cellRenderer_calls st' = cellRenderer_calls st @ [p] \<and>
               acc' = acc @ emitted (with_key (reuseKey_of m x) (cellRenderer P p)))
       else cellCache st' = cellCache st \<and> cellRenderer_calls st' = cellRenderer_calls st @ [p] \<and>
            acc' = acc @ emitted (cellRenderer P p))"
proof -
  from render_cell_effect[OF assms[unfolded render_coord_def]]
  obtain slot p where sp: "m (getKey (fst x) (snd x)) = Some slot"
    "cell_rowIndex p = fst x" "cell_columnIndex p = snd x" "cell_key p = toString (int slot)"
    and eff: "(if cache_path P then
         (if truthy (cellCache st (getKey (fst x) (snd x)))
          then cellCache st' = cellCache st \<and> cellRenderer_calls st' = cellRenderer_calls st \<and>
               acc' = acc @ emitted (with_key (toString (int slot)) (cellCache st (getKey (fst x) (snd x))))
          else cellCache st' = (cellCache st)(getKey (fst x) (snd x) := cellRenderer P p) \<and>
               cellRenderer_calls st' = cellRenderer_calls st @ [p] \<and>
               acc' = acc @ emitted (with_key (toString (int slot)) (cellRenderer P p)))
       else cellCache st' = cellCache st \<and> cellRenderer_calls st' = cellRenderer_calls st @ [p] \<and>
            acc' = acc @ emitted (cellRenderer P p))"
    by blast
  have rk: "reuseKey_of m x = toString (int slot)" using sp(1) by (simp add: reuseKey_of_def coord_key_def)
  have "coord_key x \<in> dom m" using sp(1) by (auto simp: coord_key_def)
  moreover have "call_coord p = x" using sp(2,3) by (simp add: call_coord_def)
  moreover have "cell_key p = reuseKey_of m x" using sp(4) rk by simp
  ultimately show ?thesis using eff unfolding rk coord_key_def[symmetric] by blast
qed

lemma cached_inv_step:
  assumes cp: "cache_path P"
    and inv: "cached_inv P m s0 pre (st, acc)"
    and step: "render_coord P m cc x (st, acc) = Inr (st', acc')"
    and fresh: "x \<notin> set pre"
  shows "cached_inv P m s0 (pre @ [x]) (st', acc')"
proof -
  from render_coord_effect[OF step] cp obtain p where p: "call_coord p = x"
    and eff: "if truthy (cellCache st (coord_key x))
          then cellCache st' = cellCache st \<and> cellRenderer_calls st' = cellRenderer_calls st \<and>
               acc' = acc @ emitted (with_key (reuseKey_of m x) (cellCache st (coord_key x)))
          else cellCache st' = (cellCache st)(coord_key x := cellRenderer P p) \<and>
               cellRenderer_calls st' = cellRenderer_calls st @ [p] \<and>
               acc' = acc @ emitted (with_key (reuseKey_of m x) (cellRenderer P p))"
    by auto
  from inv have frame: "\<And>k. (\<forall>rc \<in> set pre. k \<noteq> coord_key rc) \<Longrightarrow> cellCache st k = cellCache s0 k"
    and keep: "\<And>k. truthy (cellCache s0 k) \<Longrightarrow> cellCache st k = cellCache s0 k"
    and acc: "acc = concat (map (\<lambda>rc. emitted (with_key (reuseKey_of m rc) (cellCache st (coord_key rc)))) pre)"
    by (auto simp: cached_inv_def)
  from inv obtain new where new: "cellRenderer_calls st = cellRenderer_calls s0 @ new"
    "map call_coord new = filter (\<lambda>rc. \<not> truthy (cellCache s0 (coord_key rc))) pre"
    "\<forall>p \<in> set new. cellCache st (coord_key (call_coord p)) = cellRenderer P p"
    by (auto simp: cached_inv_def)
  have xk: "\<forall>rc \<in> set pre. coord_key x \<noteq> coord_key rc" using fresh by (auto simp: coord_key_inj)
  then have x0: "cellCache st (coord_key x) = cellCache s0 (coord_key x)" by (rule frame)
  have pre_same: "cellCache st' (coord_key rc) = cellCache st (coord_key rc)" if "rc \<in> set pre" for rc
    using eff xk that by (auto split: if_splits)
  have new_in_pre: "call_coord q \<in> set pre" if "q \<in> set new" for q
  proof -
    from that have "call_coord q \<in> set (map call_coord new)" by simp
    then show ?thesis unfolding new(2) by simp
  qed
  have acc_same: "concat (map (\<lambda>rc. emitted (with_key (reuseKey_of m rc) (cellCache st' (coord_key rc)))) pre) = acc"
    unfolding acc using pre_same by (intro arg_cong[where f = concat] map_cong) simp_all
  show ?thesis
  proof (cases "truthy (cellCache st (coord_key x))")
    case True
    with eff have e: "cellCache st' = cellCache st" "cellRenderer_calls st' = cellRenderer_calls st"
      "acc' = acc @ emitted (with_key (reuseKey_of m x) (cellCache st (coord_key x)))" by auto
    have "map call_coord new = filter (\<lambda>rc. \<not> truthy (cellCache s0 (coord_key rc))) (pre @ [x])"
      using new(2) True x0 by simp
    with new(1,3) e(1,2) have calls: "\<exists>new. cellRenderer_calls st' = cellRenderer_calls s0 @ new \<and>
        map call_coord new = filter (\<lambda>rc. \<not> truthy (cellCache s0 (coord_key rc))) (pre @ [x]) \<and>
        (\<forall>p \<in> set new. cellCache st' (coord_key (call_coord p)) = cellRenderer P p)" by auto
    have "acc' = concat (map (\<lambda>rc. emitted (with_key (reuseKey_of m rc) (cellCache st' (coord_key rc)))) (pre @ [x]))"
      using e(3) acc_same e(1) by simp
    with calls frame keep e(1) show ?thesis by (auto simp: cached_inv_def)
  next
    case False
    with eff have e: "cellCache st' = (cellCache st)(coord_key x := cellRenderer P p)"
      "cellRenderer_calls st' = cellRenderer_calls st @ [p]"
      "acc' = acc @ emitted (with_key (reuseKey_of m x) (cellRenderer P p))" by auto
    have c1: "cellRenderer_calls st' = cellRenderer_calls s0 @ (new @ [p])" using new(1) e(2) by simp
    have c2: "map call_coord (new @ [p]) = filter (\<lambda>rc. \<not> truthy (cellCache s0 (coord_key rc))) (pre @ [x])"
      using new(2) False x0 p by simp
    have c3: "\<forall>q \<in> set (new @ [p]). cellCache st' (coord_key (call_coord q)) = cellRenderer P q"
    proof
      fix q assume "q \<in> set (new @ [p])"
      then consider "q \<in> set new" | "q = p" by auto
      then show "cellCache st' (coord_key (call_coord q)) = cellRenderer P q"
      proof cases
        case 1
        with new_in_pre pre_same new(3) show ?thesis by auto
      next
        case 2
        with p e(1) show ?thesis by simp
      qed
    qed
    have f': "cellCache st' k = cellCache s0 k" if "\<forall>rc \<in> set (pre @ [x]). k \<noteq> coord_key rc" for k
      using that frame[of k] e(1) by auto
    have k': "cellCache st' k = cellCache s0 k" if "truthy (cellCache s0 k)" for k
      using that keep[of k] e(1) False x0 by (cases "k = coord_key x") auto
    have a': "acc' = concat (map (\<lambda>rc. emitted (with_key (reuseKey_of m rc) (cellCache st' (coord_key rc)))) (pre @ [x]))"
      using e(3) acc_same e(1) by simp
    show ?thesis
      unfolding cached_inv_def fst_conv snd_conv
      using f' k' a' c1 c2 c3 by blast
  qed
qed

lemma cached_inv_fold:
  assumes cp: "cache_path P"
    and d: "distinct xs"
    and f: "fold_result (render_coord P m cc) xs (s0, []) = Inr sa"
  shows "cached_inv P m s0 xs sa"
proof (rule fold_result_invariant[OF f, where Q = "cached_inv P m s0"])
  show "cached_inv P m s0 [] (s0, [])" by (simp add: cached_inv_def)
next
  fix pre x post s s'
  assume xs: "xs = pre @ x # post" and inv: "cached_inv P m s0 pre s"
    and step: "render_coord P m cc x s = Inr s'"
  from xs d have fresh: "x \<notin> set pre" by auto
  from cached_inv_step[OF cp _ _ fresh, of m s0 "fst s" "snd s" cc "fst s'" "snd s'"] inv step
  show "cached_inv P m s0 (pre @ [x]) s'" by simp
qed

lemma set_array_sort: "set (array_sort cmp xs) = set xs"
  using mset_array_sort[of cmp xs] by (metis set_mset_mset)

lemma keyed_dom:
  "set (rect_keys (rowStartIndex P) (rowStopIndex P) (columnStartIndex P) (columnStopIndex P))
     \<subseteq> dom (fst (getReusableKeyMap K (rowStartIndex P) (rowStopIndex P) (columnStartIndex P) (columnStopIndex P)))"
  by (simp add: getReusableKeyMap_dom)

text \<open>Both copies run the same loop; they differ in the slot of the recycler and in the sort.\<close>

lemma defaultCellRangeRenderer_unfold:
  "\<exists>s a. render_rows P
       (fst (getReusableKeyMap (getReusableKeyCache (cellCache_symbol st))
               (rowStartIndex P) (rowStopIndex P) (columnStartIndex P) (columnStopIndex P)))
       (\<not> isScrolling P \<and> \<not> (areOffsetsAdjusted (columnSizeAndPositionManager P) \<or>
             areOffsetsAdjusted (rowSizeAndPositionManager P)))
       (st\<lparr>cellCache_symbol := Some (snd (getReusableKeyMap (getReusableKeyCache (cellCache_symbol st))
               (rowStartIndex P) (rowStopIndex P) (columnStartIndex P) (columnStopIndex P)))\<rparr>) = Inr (s, a) \<and>
     defaultCellRangeRenderer P st =
       Inr (array_sort (\<lambda>a b. number_minus (parseInt (elem_key b)) (parseInt (elem_key a))) a, s)"
proof -
  from render_rows_returns[OF keyed_dom] obtain s a where
    "render_rows P
       (fst (getReusableKeyMap (getReusableKeyCache (cellCache_symbol st))
               (rowStartIndex P) (rowStopIndex P) (columnStartIndex P) (columnStopIndex P)))
       (\<not> isScrolling P \<and> \<not> (areOffsetsAdjusted (columnSizeAndPositionManager P) \<or>
             areOffsetsAdjusted (rowSizeAndPositionManager P)))
       (st\<lparr>cellCache_symbol := Some (snd (getReusableKeyMap (getReusableKeyCache (cellCache_symbol st))
               (rowStartIndex P) (rowStopIndex P) (columnStartIndex P) (columnStopIndex P)))\<rparr>) = Inr (s, a)"
    by blast
  then show ?thesis by (simp add: defaultCellRangeRenderer_def Let_def)
qed

lemma defaultCellRangeRenderer_part_001_unfold:
  "\<exists>s a. render_rows P
       (fst (getReusableKeyMap (getReusableKeyCache (parent_symbol st))
               (rowStartIndex P) (rowStopIndex P) (columnStartIndex P) (columnStopIndex P)))
       (\<not> isScrolling P \<and> \<not> (areOffsetsAdjusted (columnSizeAndPositionManager P) \<or>
             areOffsetsAdjusted (rowSizeAndPositionManager P)))
       (st\<lparr>parent_symbol := Some (snd (getReusableKeyMap (getReusableKeyCache (parent_symbol st))
               (rowStartIndex P) (rowStopIndex P) (columnStartIndex P) (columnStopIndex P)))\<rparr>) = Inr (s, a) \<and>
     defaultCellRangeRenderer_part_001 P st =
       Inr (array_sort (\<lambda>a b. number_minus (parseInt (elem_key a)) (parseInt (elem_key b))) a, s)"
proof -
  from render_rows_returns[OF keyed_dom] obtain s a where
    "render_rows P
       (fst (getReusableKeyMap (getReusableKeyCache (parent_symbol st))
               (rowStartIndex P) (rowStopIndex P) (columnStartIndex P) (columnStopIndex P)))
       (\<not> isScrolling P \<and> \<not> (areOffsetsAdjusted (columnSizeAndPositionManager P) \<or>
             areOffsetsAdjusted (rowSizeAndPositionManager P)))
       (st\<lparr>parent_symbol := Some (snd (getReusableKeyMap (getReusableKeyCache (parent_symbol st))
               (rowStartIndex P) (rowStopIndex P) (columnStartIndex P) (columnStopIndex P)))\<rparr>) = Inr (s, a)"
    by blast
  then show ?thesis by (simp add: defaultCellRangeRenderer_part_001_def Let_def)
qed

lemma radix_digit_10: "is_digit c \<Longrightarrow> radix_digit 10 c = Some (of_char c - 48)"
  by (auto simp: is_digit_def radix_digit_def Let_def)

lemma is_digit_not_special:
  assumes "is_digit c"
  shows "\<not> is_whitespace c" "c \<noteq> CHR ''-''" "c \<noteq> CHR ''+''" "c \<noteq> CHR ''x''" "c \<noteq> CHR ''X''"
  using assms by (auto simp: is_digit_def is_whitespace_def)

lemma parseInt_string_digits:
  assumes "s \<noteq> []" "\<forall>c \<in> set s. is_digit c"
  shows "parseInt_string s = Some (int (digits_value s))"
proof -
  from assms obtain c r where s: "s = c # r" by (cases s) auto
  with assms have c: "is_digit c" by simp
  have ws: "dropWhile is_whitespace s = s" using s is_digit_not_special(1)[OF c] by simp
  have nohex: "(case s of c # d # _ \<Rightarrow> c = CHR ''0'' \<and> (d = CHR ''x'' \<or> d = CHR ''X'') | _ \<Rightarrow> False) = False"
  proof (cases r)
    case Nil
    with s show ?thesis by simp
  next
    case (Cons d r')
    with s assms(2) have "is_digit d" by simp
    from is_digit_not_special(4,5)[OF this] s Cons show ?thesis by simp
  qed
  have tw: "takeWhile (\<lambda>c. \<exists>y. radix_digit 10 c = Some y) s = s"
    using assms(2) by (auto simp: radix_digit_10 takeWhile_eq_all_conv)
  have val: "foldl (\<lambda>acc c. acc * 10 + (case radix_digit 10 c of Some v \<Rightarrow> v | None \<Rightarrow> 0)) a s =
      foldl (\<lambda>acc c. acc * 10 + (of_char c - 48)) a s" for a
    using assms(2) by (induction s arbitrary: a) (simp_all add: radix_digit_10)
  have sgn: "(case s of c # _ \<Rightarrow> if c = CHR ''-'' then - 1 else 1 | [] \<Rightarrow> (1::int)) = 1"
    using s is_digit_not_special(2)[OF c] by simp
  have strip: "(case s of c # r \<Rightarrow> if c = CHR ''-'' \<or> c = CHR ''+'' then r else s | [] \<Rightarrow> s) = s"
    using s is_digit_not_special(2,3)[OF c] by simp
  show ?thesis
    unfolding parseInt_string_def Let_def ws sgn strip nohex
    using assms(1) by (simp add: tw val digits_value_def)
qed

lemma parseInt_toString: "parseInt (Some (toString (int n))) = Some (int n)"
  using parseInt_string_digits[of "toString_nat n"] toString_nat_nonempty[of n] toString_nat_digits[of _ n]
  by (simp add: parseInt_def toString_def digits_value_toString_nat)

lemma set_sort_insert: "set (sort_insert cmp x xs) = insert x (set xs)"
  using mset_sort_insert[of cmp x xs] by (metis set_mset_add_mset_insert set_mset_mset)

lemma sorted_insert_numeric:
  assumes "\<forall>e \<in> set (x # xs). parseInt (elem_key e) \<noteq> None"
    and "sorted (map g xs)"
    and "\<And>a b. parseInt (elem_key a) \<noteq> None \<Longrightarrow> parseInt (elem_key b) \<noteq> None \<Longrightarrow>
           (case cmp a b of None \<Rightarrow> 0 | Some v \<Rightarrow> v) \<le> 0 \<longleftrightarrow> g a \<le> (g b :: int)"
  shows "sorted (map g (sort_insert cmp x xs))"
  using assms(1,2)
proof (induction xs)
  case Nil
  then show ?case by simp
next
  case (Cons y ys)
  have c: "(case cmp x y of None \<Rightarrow> 0 | Some v \<Rightarrow> v) \<le> 0 \<longleftrightarrow> g x \<le> g y"
    using Cons.prems(1) by (intro assms(3)) auto
  show ?case
  proof (cases "g x \<le> g y")
    case True
    with Cons.prems c show ?thesis by auto
  next
    case False
    have "sorted (map g (sort_insert cmp x ys))" using Cons by auto
    with False Cons.prems c show ?thesis by (auto simp: set_sort_insert)
  qed
qed

lemma sorted_array_sort_numeric:
  assumes "\<forall>e \<in> set xs. parseInt (elem_key e) \<noteq> None"
    and "\<And>a b. parseInt (elem_key a) \<noteq> None \<Longrightarrow> parseInt (elem_key b) \<noteq> None \<Longrightarrow>
           (case cmp a b of None \<Rightarrow> 0 | Some v \<Rightarrow> v) \<le> 0 \<longleftrightarrow> g a \<le> (g b :: int)"
  shows "sorted (map g (array_sort cmp xs))"
  using assms(1)
proof (induction xs)
  case Nil
  then show ?case by (simp add: array_sort_def)
next
  case (Cons x xs)
  have ih: "sorted (map g (array_sort cmp xs))" using Cons by simp
  have "\<forall>e \<in> set (x # array_sort cmp xs). parseInt (elem_key e) \<noteq> None"
    using Cons.prems by (simp add: set_array_sort)
  from sorted_insert_numeric[OF this ih assms(2)] show ?case
    by (simp add: array_sort_def)
qed

lemma ascending_sorted:
  assumes "\<forall>e \<in> set xs. parseInt (elem_key e) \<noteq> None"
  shows "sorted (map numeric_key
           (array_sort (\<lambda>a b. number_minus (parseInt (elem_key a)) (parseInt (elem_key b))) xs))"
  by (rule sorted_array_sort_numeric[OF assms]) (auto simp: numeric_key_def number_minus_def)

lemma descending_sorted:
  assumes "\<forall>e \<in> set xs. parseInt (elem_key e) \<noteq> None"
  shows "sorted_wrt (\<ge>) (map numeric_key
           (array_sort (\<lambda>a b. number_minus (parseInt (elem_key b)) (parseInt (elem_key a))) xs))"
proof -
  have "sorted (map (\<lambda>e. - numeric_key e)
           (array_sort (\<lambda>a b. number_minus (parseInt (elem_key b)) (parseInt (elem_key a))) xs))"
    by (rule sorted_array_sort_numeric[OF assms]) (auto simp: numeric_key_def number_minus_def)
  then show ?thesis by (simp add: sorted_wrt_map)
qed

lemma emitted_with_key:
  "emitted (with_key rk y) = [] \<or> (\<exists>e. emitted (with_key rk y) = [e] \<and> elem_key e = Some rk)"
  by (cases y) (auto simp: emitted_def with_key_def)

lemma emitted_keeps_key:
  assumes "renderer_keeps_key P"
  shows "emitted (cellRenderer P p) = [] \<or>
    (\<exists>e. emitted (cellRenderer P p) = [e] \<and> elem_key e = Some (cell_key p))"
  using assms by (cases "cellRenderer P p") (auto simp: emitted_def renderer_keeps_key_def)

lemma keyed_inv_step:
  assumes "cache_path P \<or> renderer_keeps_key P"
    and inv: "keyed_inv m pre (st, acc)"
    and step: "render_coord P m cc x (st, acc) = Inr (st', acc')"
    and fresh: "x \<notin> set pre"
  shows "keyed_inv m (pre @ [x]) (st', acc')"
proof -
  from inv obtain coords where co: "distinct coords" "set coords \<subseteq> set pre"
    "map elem_key acc = map (\<lambda>rc. Some (reuseKey_of m rc)) coords"
    by (auto simp: keyed_inv_def)
  from render_coord_effect[OF step] obtain p where p: "cell_key p = reuseKey_of m x"
    and eff: "if cache_path P then
         (if truthy (cellCache st (coord_key x))
          then acc' = acc @ emitted (with_key (reuseKey_of m x) (cellCache st (coord_key x)))
          else acc' = acc @ emitted (with_key (reuseKey_of m x) (cellRenderer P p)))
       else acc' = acc @ emitted (cellRenderer P p)"
    by (auto split: if_splits)
  have "acc' = acc \<or> (\<exists>e. acc' = acc @ [e] \<and> elem_key e = Some (reuseKey_of m x))"
  proof (cases "cache_path P")
    case True
    with eff emitted_with_key[of "reuseKey_of m x" "cellCache st (coord_key x)"]
      emitted_with_key[of "reuseKey_of m x" "cellRenderer P p"]
    show ?thesis by (auto split: if_splits)
  next
    case False
    with assms(1) have "renderer_keeps_key P" by simp
    from emitted_keeps_key[OF this, of p] False eff p show ?thesis by auto
  qed
  then show ?thesis
  proof
    assume "acc' = acc"
    with co show ?thesis unfolding keyed_inv_def snd_conv
      by (intro exI[of _ coords]) auto
  next
    assume "\<exists>e. acc' = acc @ [e] \<and> elem_key e = Some (reuseKey_of m x)"
    then obtain e where e: "acc' = acc @ [e]" "elem_key e = Some (reuseKey_of m x)" by blast
    with co fresh show ?thesis unfolding keyed_inv_def snd_conv
      by (intro exI[of _ "coords @ [x]"]) auto
  qed
qed

lemma keyed_inv_fold:
  assumes k: "cache_path P \<or> renderer_keeps_key P"
    and d: "distinct xs"
    and f: "fold_result (render_coord P m cc) xs (s0, []) = Inr sa"
  shows "keyed_inv m xs sa"
proof (rule fold_result_invariant[OF f, where Q = "keyed_inv m"])
  show "keyed_inv m [] (s0, [])" by (simp add: keyed_inv_def)
next
  fix pre x post s s'
  assume xs: "xs = pre @ x # post" and inv: "keyed_inv m pre s"
    and step: "render_coord P m cc x s = Inr s'"
  from xs d have fresh: "x \<notin> set pre" by auto
  from keyed_inv_step[OF k _ _ fresh, of m "fst s" "snd s" cc "fst s'" "snd s'"] inv step
  show "keyed_inv m (pre @ [x]) s'" by simp
qed

lemma render_rows_keyed:
  assumes k: "cache_path P \<or> renderer_keeps_key P"
    and rows: "render_rows P
       (fst (getReusableKeyMap K (rowStartIndex P) (rowStopIndex P) (columnStartIndex P) (columnStopIndex P)))
       cc s0 = Inr (s, a)"
  shows "\<exists>coords. distinct coords \<and>
     set coords \<subseteq> {rowStartIndex P..rowStopIndex P} \<times> {columnStartIndex P..columnStopIndex P} \<and>
     map elem_key a =
       map (\<lambda>rc. map_option (\<lambda>slot. toString (int slot))
              (fst (getReusableKeyMap K (rowStartIndex P) (rowStopIndex P) (columnStartIndex P) (columnStopIndex P))
                 (getKey (fst rc) (snd rc)))) coords \<and>
     (\<forall>e \<in> set a. parseInt (elem_key e) \<noteq> None)"
proof -
  let ?m = "fst (getReusableKeyMap K (rowStartIndex P) (rowStopIndex P) (columnStartIndex P) (columnStopIndex P))"
  let ?xs = "rect_cells (rowStartIndex P) (rowStopIndex P) (columnStartIndex P) (columnStopIndex P)"
  from keyed_inv_fold[OF k distinct_rect_cells rows[unfolded render_rows_flat]]
  obtain coords where co: "distinct coords" "set coords \<subseteq> set ?xs"
    "map elem_key a = map (\<lambda>rc. Some (reuseKey_of ?m rc)) coords"
    by (auto simp: keyed_inv_def)
  have sub: "set coords \<subseteq> {rowStartIndex P..rowStopIndex P} \<times> {columnStartIndex P..columnStopIndex P}"
    using co(2) by (simp add: set_rect_cells)
  have slot: "\<exists>slot. ?m (getKey (fst rc) (snd rc)) = Some slot \<and> reuseKey_of ?m rc = toString (int slot)"
    if "rc \<in> set coords" for rc
  proof -
    from that sub have "fst rc \<in> {rowStartIndex P..rowStopIndex P}"
      "snd rc \<in> {columnStartIndex P..columnStopIndex P}" by auto
    from getReusableKeyMap_total[OF this, of K] show ?thesis
      by (auto simp: reuseKey_of_def coord_key_def)
  qed
  have eq: "map (\<lambda>rc. Some (reuseKey_of ?m rc)) coords =
      map (\<lambda>rc. map_option (\<lambda>slot. toString (int slot)) (?m (getKey (fst rc) (snd rc)))) coords"
  proof (intro map_cong refl)
    fix rc assume "rc \<in> set coords"
    from slot[OF this] show "Some (reuseKey_of ?m rc) =
        map_option (\<lambda>slot. toString (int slot)) (?m (getKey (fst rc) (snd rc)))" by auto
  qed
  have num: "parseInt (elem_key e) \<noteq> None" if "e \<in> set a" for e
  proof -
    from that have "elem_key e \<in> set (map elem_key a)" by simp
    then obtain rc where "rc \<in> set coords" "elem_key e = Some (reuseKey_of ?m rc)"
      unfolding co(3) by auto
    with slot[of rc] show ?thesis by (auto simp: parseInt_toString)
  qed
  from co(1) sub co(3) eq num show ?thesis by auto
qed

lemma slot_string_inj:
  assumes inj: "inj_on (lastMap K) (dom (lastMap K))"
  shows "inj_on (\<lambda>rc. map_option (\<lambda>slot. toString (int slot))
              (fst (getReusableKeyMap K rs re cs ce) (getKey (fst rc) (snd rc))))
           ({rs..re} \<times> {cs..ce})"
proof (rule inj_onI)
  let ?m = "fst (getReusableKeyMap K rs re cs ce)"
  fix x y assume x: "x \<in> {rs..re} \<times> {cs..ce}" and y: "y \<in> {rs..re} \<times> {cs..ce}"
    and eq: "map_option (\<lambda>slot. toString (int slot)) (?m (getKey (fst x) (snd x))) =
             map_option (\<lambda>slot. toString (int slot)) (?m (getKey (fst y) (snd y)))"
  from x obtain a where a: "?m (getKey (fst x) (snd x)) = Some a"
    using getReusableKeyMap_total[of "fst x" rs re "snd x" cs ce K] by auto
  from y obtain b where b: "?m (getKey (fst y) (snd y)) = Some b"
    using getReusableKeyMap_total[of "fst y" rs re "snd y" cs ce K] by auto
  from eq a b have "toString (int a) = toString (int b)" by simp
  then have "a = b" using toString_inj by fastforce
  with a b have "?m (getKey (fst x) (snd x)) = ?m (getKey (fst y) (snd y))" by simp
  moreover have "getKey (fst x) (snd x) \<in> set (rect_keys rs re cs ce)"
    "getKey (fst y) (snd y) \<in> set (rect_keys rs re cs ce)"
    using x y by (auto simp: getKey_in_rect_keys)
  ultimately have "getKey (fst x) (snd x) = getKey (fst y) (snd y)"
    using getReusableKeyMap_inj[OF inj, of rs re cs ce] by (auto simp: inj_on_def)
  then show "x = y" by (simp add: getKey_inj prod_eq_iff)
qed

lemma count_distinct:
  "distinct xs \<Longrightarrow> length (filter (\<lambda>x. x = a) xs) = (if a \<in> set xs then 1 else 0)"
  by (induction xs) auto

lemma invocations_at_coords:
  "invocations_at r c ps = length (filter (\<lambda>x. x = (r, c)) (map call_coord ps))"
  by (induction ps) (auto simp: invocations_at_def call_coord_def)

lemma with_key_Rendered:
  "\<exists>e. emitted (with_key rk (Rendered cached)) = [e] \<and> elem_key e = Some rk \<and>
       elem_type e = elem_type cached \<and> elem_props e = elem_props cached"
  by (auto simp: emitted_def with_key_def)

lemma render_rows_cached:
  assumes cp: "cache_path P"
    and rows: "render_rows P m cc s0 = Inr (s, a)"
  shows "\<exists>new. cellRenderer_calls s = cellRenderer_calls s0 @ new \<and>
     (\<forall>r \<in> {rowStartIndex P..rowStopIndex P}. \<forall>c \<in> {columnStartIndex P..columnStopIndex P}.
        invocations_at r c new = (if truthy (cellCache s0 (getKey r c)) then 0 else 1) \<and>
        (truthy (cellCache s0 (getKey r c)) \<longrightarrow> cellCache s (getKey r c) = cellCache s0 (getKey r c)) \<and>
        (\<not> truthy (cellCache s0 (getKey r c)) \<longrightarrow>
           (\<exists>p \<in> set new. cell_rowIndex p = r \<and> cell_columnIndex p = c \<and>
              cellCache s (getKey r c) = cellRenderer P p)) \<and>
        set (emitted (with_key (reuseKey_of m (r, c)) (cellCache s (getKey r c)))) \<subseteq> set a)"
proof -
  let ?xs = "rect_cells (rowStartIndex P) (rowStopIndex P) (columnStartIndex P) (columnStopIndex P)"
  from cached_inv_fold[OF cp distinct_rect_cells rows[unfolded render_rows_flat]]
  have inv: "cached_inv P m s0 ?xs (s, a)" .
  then obtain new where new: "cellRenderer_calls s = cellRenderer_calls s0 @ new"
    "map call_coord new = filter (\<lambda>rc. \<not> truthy (cellCache s0 (coord_key rc))) ?xs"
    "\<forall>p \<in> set new. cellCache s (coord_key (call_coord p)) = cellRenderer P p"
    by (auto simp: cached_inv_def)
  from inv have keep: "\<And>k. truthy (cellCache s0 k) \<Longrightarrow> cellCache s k = cellCache s0 k"
    and acc: "a = concat (map (\<lambda>rc. emitted (with_key (reuseKey_of m rc) (cellCache s (coord_key rc)))) ?xs)"
    by (auto simp: cached_inv_def)
  have per: "invocations_at r c new = (if truthy (cellCache s0 (getKey r c)) then 0 else 1) \<and>
        (truthy (cellCache s0 (getKey r c)) \<longrightarrow> cellCache s (getKey r c) = cellCache s0 (getKey r c)) \<and>
        (\<not> truthy (cellCache s0 (getKey r c)) \<longrightarrow>
           (\<exists>p \<in> set new. cell_rowIndex p = r \<and> cell_columnIndex p = c \<and>
              cellCache s (getKey r c) = cellRenderer P p)) \<and>
        set (emitted (with_key (reuseKey_of m (r, c)) (cellCache s (getKey r c)))) \<subseteq> set a"
    if r: "r \<in> {rowStartIndex P..rowStopIndex P}" and c: "c \<in> {columnStartIndex P..columnStopIndex P}"
    for r c
  proof -
    have mem: "(r, c) \<in> set ?xs" using r c by (simp add: set_rect_cells)
    have d: "distinct (filter (\<lambda>rc. \<not> truthy (cellCache s0 (coord_key rc))) ?xs)"
      using distinct_rect_cells by simp
    have cnt: "invocations_at r c new = (if truthy (cellCache s0 (getKey r c)) then 0 else 1)"
      unfolding invocations_at_coords new(2) count_distinct[OF d]
      using mem by (simp add: coord_key_def)
    have called: "\<exists>p \<in> set new. cell_rowIndex p = r \<and> cell_columnIndex p = c \<and>
              cellCache s (getKey r c) = cellRenderer P p"
      if "\<not> truthy (cellCache s0 (getKey r c))"
    proof -
      from that mem have "(r, c) \<in> set (map call_coord new)"
        unfolding new(2) by (simp add: coord_key_def)
      then obtain p where p: "p \<in> set new" "call_coord p = (r, c)" by auto
      with new(3) have "cellCache s (getKey r c) = cellRenderer P p" by (auto simp: coord_key_def)
      with p show ?thesis by (auto simp: call_coord_def)
    qed
    have em: "set (emitted (with_key (reuseKey_of m (r, c)) (cellCache s (getKey r c)))) \<subseteq> set a"
      unfolding acc using mem by (auto simp: coord_key_def)
    from cnt keep called em show ?thesis by blast
  qed
  from new(1) per show ?thesis by blast
qed

lemma style_step_fst_cong:
  "sc (coord_key rc) = sc' (coord_key rc) \<Longrightarrow>
     fst (style_step P cc rc sc) = fst (style_step P cc rc sc')"
  by (simp add: style_step_def compute_style_def Let_def split: option.splits)

lemma style_step_False:
  "style_step P False rc sc =
     (if unmeasured P rc
      then (\<lparr>height = Auto, left = 0, position = ''absolute'', top' = 0, width = Auto\<rparr>, sc)
      else (computed_style P rc, sc(coord_key rc \<mapsto> computed_style P rc)))"
  by (simp add: style_step_def compute_style_def unmeasured_def computed_style_def Let_def)

lemma style_step_frame:
  "k \<noteq> coord_key rc \<Longrightarrow> snd (style_step P cc rc sc) k = sc k"
  by (simp add: style_step_def compute_style_def Let_def split: option.splits)

lemma compute_cell_styleCache:
  "compute_cell P k rk p (st\<lparr>styleCache := x\<rparr>) =
     (fst (compute_cell P k rk p st), (snd (compute_cell P k rk p st))\<lparr>styleCache := x\<rparr>)"
proof (cases "cache_path P")
  case True
  show ?thesis unfolding compute_cell_cached[OF True]
    by (cases "truthy (cellCache st k)") simp_all
next
  case False
  show ?thesis unfolding compute_cell_fresh[OF False] by simp
qed

lemma warnAboutMissingStyle_styleCache:
  "warnAboutMissingStyle b e (st\<lparr>styleCache := x\<rparr>) =
     (warnAboutMissingStyle b e st)\<lparr>styleCache := x\<rparr>"
  by (simp add: warnAboutMissingStyle_def Let_def split: option.splits)

lemma compute_cell_fst:
  "fst (compute_cell P (coord_key rc) (reuseKey_of m rc) (params_for P m cc (styleCache st) rc) st) =
     rendered_for P m cc st rc"
proof (cases "cache_path P")
  case True
  show ?thesis unfolding compute_cell_cached[OF True] rendered_for_def using True by simp
next
  case False
  show ?thesis unfolding compute_cell_fresh[OF False] rendered_for_def using False by simp
qed

lemma compute_cell_cellCache:
  "cellCache (snd (compute_cell P k rk p st)) k' = cellCache st k' \<or> k' = k"
  "styleCache (snd (compute_cell P k rk p st)) = styleCache st"
proof -
  show "cellCache (snd (compute_cell P k rk p st)) k' = cellCache st k' \<or> k' = k"
  proof (cases "cache_path P")
    case True
    show ?thesis unfolding compute_cell_cached[OF True] by simp
  next
    case False
    show ?thesis unfolding compute_cell_fresh[OF False] by simp
  qed
  show "styleCache (snd (compute_cell P k rk p st)) = styleCache st"
  proof (cases "cache_path P")
    case True
    show ?thesis unfolding compute_cell_cached[OF True] by simp
  next
    case False
    show ?thesis unfolding compute_cell_fresh[OF False] by simp
  qed
qed

text \<open>One iteration, written on the state it starts from.\<close>

lemma render_coord_normal:
  assumes "m (coord_key x) = Some slot"
  shows "render_coord P m cc x (st, acc) =
     Inr ((case fst (compute_cell P (coord_key x) (reuseKey_of m x) (params_for P m cc (styleCache st) x) st) of
             Rendered e \<Rightarrow>
               if production P
               then snd (compute_cell P (coord_key x) (reuseKey_of m x) (params_for P m cc (styleCache st) x) st)
               else warnAboutMissingStyle (production P) e
                      (snd (compute_cell P (coord_key x) (reuseKey_of m x) (params_for P m cc (styleCache st) x) st))
           | other \<Rightarrow> snd (compute_cell P (coord_key x) (reuseKey_of m x) (params_for P m cc (styleCache st) x) st))
          \<lparr>styleCache := snd (style_step P cc x (styleCache st))\<rparr>,
          acc @ emitted (fst (compute_cell P (coord_key x) (reuseKey_of m x) (params_for P m cc (styleCache st) x) st)))"
proof -
  have slot: "m (getKey (fst x) (snd x)) = Some slot" using assms by (simp add: coord_key_def)
  have rk: "toString (int slot) = reuseKey_of m x" using assms by (simp add: reuseKey_of_def)
  show ?thesis
    unfolding render_coord_def render_cell_def Let_def fst_conv snd_conv
    by (simp add: slot rk compute_cell_styleCache warnAboutMissingStyle_styleCache emitted_def
        params_for_def style_step_def coord_key_def split: rendered.splits)
qed

lemma render_coord_dom:
  assumes "render_coord P m cc x sa = Inr sa'"
  shows "\<exists>slot. m (coord_key x) = Some slot"
  using assms by (cases "m (coord_key x)") (auto simp: render_coord_def render_cell_def Let_def coord_key_def)

lemma render_coord_exact:
  assumes "render_coord P m cc x (st, acc) = Inr (st', acc')"
  shows "acc' = acc @ emitted (rendered_for P m cc st x)"
    and "styleCache st' = snd (style_step P cc x (styleCache st))"
    and "k \<noteq> coord_key x \<Longrightarrow> cellCache st' k = cellCache st k"
proof -
  from render_coord_dom[OF assms] obtain slot where slot: "m (coord_key x) = Some slot" by blast
  note n = assms[unfolded render_coord_normal[of m x slot P cc st acc, OF slot]]
  from n show "acc' = acc @ emitted (rendered_for P m cc st x)"
    by (simp add: compute_cell_fst)
  from n show "styleCache st' = snd (style_step P cc x (styleCache st))"
    by auto
  assume k: "k \<noteq> coord_key x"
  let ?C = "compute_cell P (coord_key x) (reuseKey_of m x) (params_for P m cc (styleCache st) x) st"
  from n have "cellCache st' = cellCache (snd ?C)"
    by (auto simp: warnAboutMissingStyle_fields split: rendered.splits if_splits)
  with compute_cell_cellCache(1)[of P "coord_key x" "reuseKey_of m x" _ st k] k
  show "cellCache st' k = cellCache st k" by auto
qed

lemma rendered_for_cong:
  assumes "cellCache s (coord_key rc) = cellCache s0 (coord_key rc)"
    and "styleCache s (coord_key rc) = styleCache s0 (coord_key rc)"
  shows "rendered_for P m cc s rc = rendered_for P m cc s0 rc"
proof -
  have "params_for P m cc (styleCache s) rc = params_for P m cc (styleCache s0) rc"
    using style_step_fst_cong[of "styleCache s" rc "styleCache s0" P cc, OF assms(2)] by (simp add: params_for_def)
  with assms(1) show ?thesis by (simp add: rendered_for_def)
qed

lemma exact_inv_step:
  assumes inv: "exact_inv P m cc s0 pre (st, acc)"
    and step: "render_coord P m cc x (st, acc) = Inr (st', acc')"
    and fresh: "x \<notin> set pre"
  shows "exact_inv P m cc s0 (pre @ [x]) (st', acc')"
proof -
  from inv have frame: "\<And>k. (\<forall>rc \<in> set pre. k \<noteq> coord_key rc) \<Longrightarrow>
      cellCache st k = cellCache s0 k \<and> styleCache st k = styleCache s0 k"
    and acc: "acc = concat (map (\<lambda>rc. emitted (rendered_for P m cc s0 rc)) pre)"
    by (auto simp: exact_inv_def)
  have xk: "\<forall>rc \<in> set pre. coord_key x \<noteq> coord_key rc" using fresh by (auto simp: coord_key_inj)
  from frame[OF xk] have "rendered_for P m cc st x = rendered_for P m cc s0 x"
    by (intro rendered_for_cong) simp_all
  with render_coord_exact(1)[OF step] acc
  have a': "acc' = concat (map (\<lambda>rc. emitted (rendered_for P m cc s0 rc)) (pre @ [x]))" by simp
  have f': "cellCache st' k = cellCache s0 k \<and> styleCache st' k = styleCache s0 k"
    if "\<forall>rc \<in> set (pre @ [x]). k \<noteq> coord_key rc" for k
  proof -
    from that have k: "k \<noteq> coord_key x" and pre: "\<forall>rc \<in> set pre. k \<noteq> coord_key rc" by auto
    from render_coord_exact(3)[OF step k] render_coord_exact(2)[OF step] style_step_frame[OF k]
      frame[OF pre]
    show ?thesis by simp
  qed
  from a' f' show ?thesis unfolding exact_inv_def fst_conv snd_conv by blast
qed

lemma exact_inv_fold:
  assumes d: "distinct xs"
    and f: "fold_result (render_coord P m cc) xs (s0, []) = Inr sa"
  shows "exact_inv P m cc s0 xs sa"
proof (rule fold_result_invariant[OF f, where Q = "exact_inv P m cc s0"])
  show "exact_inv P m cc s0 [] (s0, [])" by (simp add: exact_inv_def)
next
  fix pre x post s s'
  assume xs: "xs = pre @ x # post" and inv: "exact_inv P m cc s0 pre s"
    and step: "render_coord P m cc x s = Inr s'"
  from xs d have fresh: "x \<notin> set pre" by auto
  from exact_inv_step[OF _ _ fresh, of P m cc s0 "fst s" "snd s" "fst s'" "snd s'"] inv step
  show "exact_inv P m cc s0 (pre @ [x]) s'" by simp
qed

lemma render_rows_exact:
  assumes "render_rows P m cc s0 = Inr (s, a)"
  shows "a = concat (map (\<lambda>rc. emitted (rendered_for P m cc s0 rc))
           (rect_cells (rowStartIndex P) (rowStopIndex P) (columnStartIndex P) (columnStopIndex P)))"
  using exact_inv_fold[OF distinct_rect_cells assms[unfolded render_rows_flat]]
  by (simp add: exact_inv_def)

lemma params_for_False:
  "params_for P m False sc rc = params_for P m False sc' rc"
  by (simp add: params_for_def style_step_False)

lemma render_coord_styleCache:
  assumes "render_coord P m False x (st, acc) = Inr (s, a)"
  shows "render_coord P m False x (st\<lparr>styleCache := sc\<rparr>, acc) =
     Inr (s\<lparr>styleCache := snd (style_step P False x sc)\<rparr>, a)"
proof -
  from render_coord_dom[OF assms] obtain slot where slot: "m (coord_key x) = Some slot" by blast
  let ?p = "params_for P m False (styleCache st) x"
  let ?C = "compute_cell P (coord_key x) (reuseKey_of m x) ?p st"
  have p: "params_for P m False (styleCache (st\<lparr>styleCache := sc\<rparr>)) x = ?p"
    by (rule params_for_False)
  note n = assms[unfolded render_coord_normal[of m x slot P False st acc, OF slot]]
  show ?thesis
    unfolding render_coord_normal[of m x slot P False "st\<lparr>styleCache := sc\<rparr>" acc, OF slot] p
      compute_cell_styleCache
    using n
    by (auto simp: warnAboutMissingStyle_styleCache split: rendered.splits)
qed

lemma fold_render_coord_styleCache:
  assumes "fold_result (render_coord P m False) xs (st, acc) = Inr (s, a)"
  shows "fold_result (render_coord P m False) xs (st\<lparr>styleCache := sc\<rparr>, acc) =
     Inr (s\<lparr>styleCache := style_writes P xs sc\<rparr>, a)"
  using assms
proof (induction xs arbitrary: st acc sc)
  case Nil
  then show ?case by (simp add: style_writes_def)
next
  case (Cons x xs)
  from Cons.prems obtain s1 a1 where
    step: "render_coord P m False x (st, acc) = Inr (s1, a1)"
    and rest: "fold_result (render_coord P m False) xs (s1, a1) = Inr (s, a)"
    by (cases "render_coord P m False x (st, acc)") auto
  from Cons.IH[OF rest, of "snd (style_step P False x sc)"] render_coord_styleCache[OF step, of sc]
  show ?case by (simp add: style_writes_def)
qed

lemma render_rows_styleCache:
  assumes "render_rows P m False st = Inr (s, a)"
  shows "render_rows P m False (st\<lparr>styleCache := sc\<rparr>) =
     Inr (s\<lparr>styleCache := style_writes P
        (rect_cells (rowStartIndex P) (rowStopIndex P) (columnStartIndex P) (columnStopIndex P)) sc\<rparr>, a)"
  using fold_render_coord_styleCache[OF assms[unfolded render_rows_flat]]
  by (simp add: render_rows_flat)

lemma render_rows_styleCache_final:
  assumes "render_rows P m False st = Inr (s, a)"
  shows "styleCache s = style_writes P
     (rect_cells (rowStartIndex P) (rowStopIndex P) (columnStartIndex P) (columnStopIndex P))
     (styleCache st)"
proof -
  have "st\<lparr>styleCache := styleCache st\<rparr> = st" by simp
  with render_rows_styleCache[OF assms, of "styleCache st"] assms
  have "s = s\<lparr>styleCache := style_writes P
     (rect_cells (rowStartIndex P) (rowStopIndex P) (columnStartIndex P) (columnStopIndex P))
     (styleCache st)\<rparr>" by simp
  then have "styleCache s = styleCache (s\<lparr>styleCache := style_writes P
     (rect_cells (rowStartIndex P) (rowStopIndex P) (columnStartIndex P) (columnStopIndex P))
     (styleCache st)\<rparr>)" by (rule arg_cong)
  then show ?thesis by simp
qed

lemma style_writes_snoc:
  "style_writes P (xs @ [x]) sc = snd (style_step P False x (style_writes P xs sc))"
  by (simp add: style_writes_def)

lemma style_writes_measured:
  "rc \<in> set xs \<Longrightarrow> \<not> unmeasured P rc \<Longrightarrow>
     style_writes P xs sc (coord_key rc) = Some (computed_style P rc)"
proof (induction xs rule: rev_induct)
  case Nil
  then show ?case by simp
next
  case (snoc x xs)
  show ?case
  proof (cases "rc = x")
    case True
    with snoc.prems show ?thesis by (simp add: style_writes_snoc style_step_False)
  next
    case False
    with snoc have ih: "style_writes P xs sc (coord_key rc) = Some (computed_style P rc)" by simp
    from False have "coord_key rc \<noteq> coord_key x" by (simp add: coord_key_inj)
    with ih show ?thesis by (simp add: style_writes_snoc style_step_frame)
  qed
qed

lemma style_writes_unmeasured:
  "\<forall>rc \<in> set xs. coord_key rc = k \<longrightarrow> unmeasured P rc \<Longrightarrow> style_writes P xs sc k = sc k"
proof (induction xs rule: rev_induct)
  case Nil
  then show ?case by (simp add: style_writes_def)
next
  case (snoc x xs)
  then have ih: "style_writes P xs sc k = sc k" by simp
  show ?case
  proof (cases "coord_key x = k")
    case True
    with snoc.prems have "unmeasured P x" by simp
    with ih show ?thesis by (simp add: style_writes_snoc style_step_False)
  next
    case False
    then have "k \<noteq> coord_key x" by auto
    with ih show ?thesis by (simp add: style_writes_snoc style_step_frame)
  qed
qed

lemma rendered_for_slots:
  "rendered_for P m cc (st\<lparr>cellCache_symbol := x\<rparr>) rc = rendered_for P m cc st rc"
  by (simp add: rendered_for_def)

lemma rendered_for_key:
  assumes "cache_path P \<or> renderer_keeps_key P"
    and "e \<in> set (emitted (rendered_for P m cc st rc))"
  shows "elem_key e = Some (reuseKey_of m rc)"
proof (cases "cache_path P")
  case True
  have w: "elem_key e = Some rk" if "e \<in> set (emitted (with_key rk y))" for rk y
    using that emitted_with_key[of rk y] by auto
  from True assms(2) show ?thesis
    by (auto simp: rendered_for_def split: if_splits dest: w)
next
  case False
  with assms(1) have "renderer_keeps_key P" by simp
  from emitted_keeps_key[OF this, of "params_for P m cc (styleCache st) rc"] False assms(2)
  show ?thesis by (auto simp: rendered_for_def params_for_def)
qed

lemma render_rows_stored:
  assumes cp: "cache_path P"
    and rows: "render_rows P m cc s0 = Inr (s, a)"
    and calls: "cellRenderer_calls s = cellRenderer_calls s0 @ new"
    and p: "p \<in> set new"
  shows "cellCache s (getKey (cell_rowIndex p) (cell_columnIndex p)) = cellRenderer P p"
proof -
  from cached_inv_fold[OF cp distinct_rect_cells rows[unfolded render_rows_flat]]
  obtain new' where "cellRenderer_calls s = cellRenderer_calls s0 @ new'"
    "\<forall>p \<in> set new'. cellCache s (coord_key (call_coord p)) = cellRenderer P p"
    by (auto simp: cached_inv_def)
  with calls p show ?thesis by (auto simp: coord_key_def call_coord_def)
qed

section \<open>The claims\<close>

text \<open>
  Claim C1. Starting from a fresh recycler, after any sequence of \<^verbatim>\<open>getReusableKeyMap\<close>
  calls, one more call on any rectangle returns a map that gives every coordinate of the
  rectangle a slot key (a positive integer), gives two different coordinates of the
  rectangle different keys, and leaves a stored assignment that is again injective (and a
  state that is again reachable).
\<close>

theorem getReusableKeyMap_keys_distinct:
  assumes "reachable this"
  shows "(\<forall>r\<in>{rs..re}. \<forall>c\<in>{cs..ce}.
            \<exists>k. fst (getReusableKeyMap this rs re cs ce) (getKey r c) = Some k \<and> 1 \<le> k) \<and>
         (\<forall>r\<in>{rs..re}. \<forall>c\<in>{cs..ce}. \<forall>r'\<in>{rs..re}. \<forall>c'\<in>{cs..ce}.
            fst (getReusableKeyMap this rs re cs ce) (getKey r c) =
            fst (getReusableKeyMap this rs re cs ce) (getKey r' c') \<longrightarrow> r = r' \<and> c = c') \<and>
         inj_on (lastMap (snd (getReusableKeyMap this rs re cs ce)))
           (dom (lastMap (snd (getReusableKeyMap this rs re cs ce)))) \<and>
         reachable (snd (getReusableKeyMap this rs re cs ce))"
proof -
  let ?m = "fst (getReusableKeyMap this rs re cs ce)"
  let ?this' = "snd (getReusableKeyMap this rs re cs ce)"
  from assms have inv: "key_inv this" by (rule reachable_key_inv)
  then have inj: "inj_on (lastMap this) (dom (lastMap this))" by (simp add: key_inv_def)
  have r': "reachable ?this'" using assms by (rule reachable_call)
  then have inv': "key_inv ?this'" by (rule reachable_key_inv)
  have total: "\<exists>k. ?m (getKey r c) = Some k \<and> 1 \<le> k" if "r \<in> {rs..re}" "c \<in> {cs..ce}" for r c
  proof -
    from getReusableKeyMap_total[OF that] obtain k where k: "?m (getKey r c) = Some k" by blast
    then have "k \<in> ran (lastMap ?this')" by (auto simp: getReusableKeyMap_lastMap ran_def)
    with inv' k show ?thesis by (auto simp: key_inv_def)
  qed
  have distinct: "r = r' \<and> c = c'"
    if "r \<in> {rs..re}" "c \<in> {cs..ce}" "r' \<in> {rs..re}" "c' \<in> {cs..ce}"
      "?m (getKey r c) = ?m (getKey r' c')" for r c r' c'
  proof -
    have "getKey r c \<in> set (rect_keys rs re cs ce)" "getKey r' c' \<in> set (rect_keys rs re cs ce)"
      using that by (simp_all add: getKey_in_rect_keys)
    with getReusableKeyMap_inj[OF inj, of rs re cs ce] that(5) have "getKey r c = getKey r' c'"
      by (auto simp: inj_on_def)
    then show ?thesis by (simp add: getKey_inj)
  qed
  from inv' have "inj_on (lastMap ?this') (dom (lastMap ?this'))" by (simp add: key_inv_def)
  with total distinct r' show ?thesis by blast
qed

theorem getReusableKeyMap_keys_distinct_witness:
  "reachable (snd (getReusableKeyMap new_ReusableKeyCache 0 2 0 0)) \<and>
   fst (getReusableKeyMap (snd (getReusableKeyMap new_ReusableKeyCache 0 2 0 0)) 1 3 0 0) (getKey 1 0) \<noteq>
   fst (getReusableKeyMap (snd (getReusableKeyMap new_ReusableKeyCache 0 2 0 0)) 1 3 0 0) (getKey 3 0)"
proof -
  have r: "reachable (snd (getReusableKeyMap new_ReusableKeyCache 0 2 0 0))"
    by (intro reachable.intros)
  have "(1::int) \<in> {1..3}" "(3::int) \<in> {1..3}" "(0::int) \<in> {0..0}" by simp_all
  with getReusableKeyMap_keys_distinct[OF r, of 1 3 0 0] r show ?thesis by fastforce
qed

text \<open>
  Claim C2. For two consecutive calls on the same recycler, from any state, a coordinate that
  lies in both rectangles gets in the second call the key it got in the first.
\<close>

theorem getReusableKeyMap_keys_stable:
  "\<forall>r\<in>{rs1..re1} \<inter> {rs2..re2}. \<forall>c\<in>{cs1..ce1} \<inter> {cs2..ce2}.
     fst (getReusableKeyMap (snd (getReusableKeyMap this rs1 re1 cs1 ce1)) rs2 re2 cs2 ce2) (getKey r c) =
     fst (getReusableKeyMap this rs1 re1 cs1 ce1) (getKey r c) \<and>
     fst (getReusableKeyMap this rs1 re1 cs1 ce1) (getKey r c) \<noteq> None"
proof (intro ballI)
  fix r c assume r: "r \<in> {rs1..re1} \<inter> {rs2..re2}" and c: "c \<in> {cs1..ce1} \<inter> {cs2..ce2}"
  let ?m1 = "fst (getReusableKeyMap this rs1 re1 cs1 ce1)"
  let ?this1 = "snd (getReusableKeyMap this rs1 re1 cs1 ce1)"
  from r c obtain k where k: "?m1 (getKey r c) = Some k"
    using getReusableKeyMap_total[of r rs1 re1 c cs1 ce1 this] by auto
  then have "lastMap ?this1 (getKey r c) = Some k" by (simp add: getReusableKeyMap_lastMap)
  moreover have "getKey r c \<in> set (rect_keys rs2 re2 cs2 ce2)"
    using r c by (simp add: getKey_in_rect_keys)
  ultimately have "fst (getReusableKeyMap ?this1 rs2 re2 cs2 ce2) (getKey r c) = Some k"
    by (intro getReusableKeyMap_carried)
  with k show "fst (getReusableKeyMap ?this1 rs2 re2 cs2 ce2) (getKey r c) = ?m1 (getKey r c) \<and>
    ?m1 (getKey r c) \<noteq> None" by simp
qed

theorem getReusableKeyMap_keys_stable_witness:
  "fst (getReusableKeyMap (snd (getReusableKeyMap new_ReusableKeyCache 0 2 0 0)) 1 3 0 0) (getKey 2 0) =
   fst (getReusableKeyMap new_ReusableKeyCache 0 2 0 0) (getKey 2 0) \<and>
   fst (getReusableKeyMap new_ReusableKeyCache 0 2 0 0) (getKey 2 0) = Some 3"
proof -
  have "(2::int) \<in> {0..2} \<inter> {1..3}" "(0::int) \<in> {0..0} \<inter> {0..0}" by simp_all
  with getReusableKeyMap_keys_stable[of 0 2 1 3 0 0 0 0 new_ReusableKeyCache]
  have "fst (getReusableKeyMap (snd (getReusableKeyMap new_ReusableKeyCache 0 2 0 0)) 1 3 0 0) (getKey 2 0) =
   fst (getReusableKeyMap new_ReusableKeyCache 0 2 0 0) (getKey 2 0)" by blast
  moreover have "fst (getReusableKeyMap new_ReusableKeyCache 0 2 0 0) (getKey 2 0) = Some 3"
    by code_simp
  ultimately show ?thesis by simp
qed

text \<open>
  Claim C3, as amended. Both copies return, and whenever \<^verbatim>\<open>parseInt\<close> reads a number
  from the key of every returned cell, the collection is sorted by that number: ascending
  in the copy of \<^verbatim>\<open>src/unnamed/part_001\<close>, descending in
  \<^verbatim>\<open>src/source/Grid/defaultCellRangeRenderer.js\<close>. All keys are such on the cache-reuse
  path, and on the other path when the cell renderer returns elements with the key of its
  argument.
\<close>

theorem rendered_cells_sorted:
  "(\<exists>cells st'. defaultCellRangeRenderer_part_001 P st = Inr (cells, st') \<and>
      ((\<forall>e \<in> set cells. parseInt (elem_key e) \<noteq> None) \<longrightarrow> sorted (map numeric_key cells)) \<and>
      ((isScrollingOptOut P \<or> isScrolling P) \<and>
         horizontalOffsetAdjustment P = 0 \<and> verticalOffsetAdjustment P = 0 \<or>
         (\<forall>p e. cellRenderer P p = Rendered e \<longrightarrow> elem_key e = Some (cell_key p)) \<longrightarrow>
       (\<forall>e \<in> set cells. parseInt (elem_key e) \<noteq> None))) \<and>
   (\<exists>cells st'. defaultCellRangeRenderer P st = Inr (cells, st') \<and>
      ((\<forall>e \<in> set cells. parseInt (elem_key e) \<noteq> None) \<longrightarrow> sorted_wrt (\<ge>) (map numeric_key cells)) \<and>
      ((isScrollingOptOut P \<or> isScrolling P) \<and>
         horizontalOffsetAdjustment P = 0 \<and> verticalOffsetAdjustment P = 0 \<or>
         (\<forall>p e. cellRenderer P p = Rendered e \<longrightarrow> elem_key e = Some (cell_key p)) \<longrightarrow>
       (\<forall>e \<in> set cells. parseInt (elem_key e) \<noteq> None)))"
proof -
  let ?H = "(isScrollingOptOut P \<or> isScrolling P) \<and>
         horizontalOffsetAdjustment P = 0 \<and> verticalOffsetAdjustment P = 0 \<or>
         (\<forall>p e. cellRenderer P p = Rendered e \<longrightarrow> elem_key e = Some (cell_key p))"
  have k: "cache_path P \<or> renderer_keeps_key P" if ?H
    using that by (auto simp: cache_path_def renderer_keeps_key_def)
  have asc: "\<exists>cells st'. defaultCellRangeRenderer_part_001 P st = Inr (cells, st') \<and>
      ((\<forall>e \<in> set cells. parseInt (elem_key e) \<noteq> None) \<longrightarrow> sorted (map numeric_key cells)) \<and>
      (?H \<longrightarrow> (\<forall>e \<in> set cells. parseInt (elem_key e) \<noteq> None))"
  proof -
    from defaultCellRangeRenderer_part_001_unfold[of P st] obtain s a where
      rows: "render_rows P
       (fst (getReusableKeyMap (getReusableKeyCache (parent_symbol st))
               (rowStartIndex P) (rowStopIndex P) (columnStartIndex P) (columnStopIndex P)))
       (\<not> isScrolling P \<and> \<not> (areOffsetsAdjusted (columnSizeAndPositionManager P) \<or>
             areOffsetsAdjusted (rowSizeAndPositionManager P)))
       (st\<lparr>parent_symbol := Some (snd (getReusableKeyMap (getReusableKeyCache (parent_symbol st))
               (rowStartIndex P) (rowStopIndex P) (columnStartIndex P) (columnStopIndex P)))\<rparr>) = Inr (s, a)"
      and res: "defaultCellRangeRenderer_part_001 P st =
       Inr (array_sort (\<lambda>a b. number_minus (parseInt (elem_key a)) (parseInt (elem_key b))) a, s)"
      by blast
    have num: "\<forall>e \<in> set a. parseInt (elem_key e) \<noteq> None" if ?H
      using render_rows_keyed[OF k[OF that] rows] by blast
    have srt: "sorted (map numeric_key
        (array_sort (\<lambda>a b. number_minus (parseInt (elem_key a)) (parseInt (elem_key b))) a))"
      if "\<forall>e \<in> set a. parseInt (elem_key e) \<noteq> None"
      using that by (rule ascending_sorted)
    from res num srt show ?thesis by (simp add: set_array_sort)
  qed
  have desc: "\<exists>cells st'. defaultCellRangeRenderer P st = Inr (cells, st') \<and>
      ((\<forall>e \<in> set cells. parseInt (elem_key e) \<noteq> None) \<longrightarrow> sorted_wrt (\<ge>) (map numeric_key cells)) \<and>
      (?H \<longrightarrow> (\<forall>e \<in> set cells. parseInt (elem_key e) \<noteq> None))"
  proof -
    from defaultCellRangeRenderer_unfold[of P st] obtain s a where
      rows: "render_rows P
       (fst (getReusableKeyMap (getReusableKeyCache (cellCache_symbol st))
               (rowStartIndex P) (rowStopIndex P) (columnStartIndex P) (columnStopIndex P)))
       (\<not> isScrolling P \<and> \<not> (areOffsetsAdjusted (columnSizeAndPositionManager P) \<or>
             areOffsetsAdjusted (rowSizeAndPositionManager P)))
       (st\<lparr>cellCache_symbol := Some (snd (getReusableKeyMap (getReusableKeyCache (cellCache_symbol st))
               (rowStartIndex P) (rowStopIndex P) (columnStartIndex P) (columnStopIndex P)))\<rparr>) = Inr (s, a)"
      and res: "defaultCellRangeRenderer P st =
       Inr (array_sort (\<lambda>a b. number_minus (parseInt (elem_key b)) (parseInt (elem_key a))) a, s)"
      by blast
    have num: "\<forall>e \<in> set a. parseInt (elem_key e) \<noteq> None" if ?H
      using render_rows_keyed[OF k[OF that] rows] by blast
    have srt: "sorted_wrt (\<ge>) (map numeric_key
        (array_sort (\<lambda>a b. number_minus (parseInt (elem_key b)) (parseInt (elem_key a))) a))"
      if "\<forall>e \<in> set a. parseInt (elem_key e) \<noteq> None"
      using that by (rule descending_sorted)
    from res num srt show ?thesis by (simp add: set_array_sort)
  qed
  from asc desc show ?thesis by blast
qed

theorem rendered_cells_sorted_witness:
  "(\<exists>cells st'. defaultCellRangeRenderer_part_001 example_params initial_state = Inr (cells, st') \<and>
      (\<forall>e \<in> set cells. parseInt (elem_key e) \<noteq> None) \<and> sorted (map numeric_key cells)) \<and>
   (\<exists>cells st'. defaultCellRangeRenderer example_params initial_state = Inr (cells, st') \<and>
      (\<forall>e \<in> set cells. parseInt (elem_key e) \<noteq> None) \<and> sorted_wrt (\<ge>) (map numeric_key cells))"
proof -
  have c: "(isScrollingOptOut example_params \<or> isScrolling example_params) \<and>
    horizontalOffsetAdjustment example_params = 0 \<and> verticalOffsetAdjustment example_params = 0"
    by (simp add: example_params_def)
  from rendered_cells_sorted[of example_params initial_state] c show ?thesis by blast
qed

text \<open>
  Claim C3 as stated fails for \<^verbatim>\<open>src/source/Grid/defaultCellRangeRenderer.js\<close>: on rows 0 to
  2 of column 0 it returns the cells with keys 3, 2, 1.
\<close>

theorem rendered_cells_descending_counterexample:
  "rowStartIndex example_params \<le> rowStopIndex example_params \<and>
   columnStartIndex example_params \<le> columnStopIndex example_params \<and>
   map_sum id (\<lambda>res. map numeric_key (fst res))
     (defaultCellRangeRenderer example_params initial_state) = Inr [3, 2, 1] \<and>
   \<not> sorted [3, 2, 1 :: int]"
  by code_simp

text \<open>
  Claim C4, as amended. With a recycler reachable from a fresh one, on the cache-reuse path,
  or on the other path when the cell renderer returns elements with the key of its argument:
  the call returns; the returned collection consists of the cells that \<open>rendered_for\<close>
  gives for the coordinates of the rectangle from the caches at the start of the call; the
  key of the cell of a coordinate is the string form of the slot key that this call's
  assignment gives to that coordinate; and no two returned cells have the same key.
\<close>

theorem rendered_keys_distinct:
  assumes "reachable (getReusableKeyCache (cellCache_symbol st))"
    and "(isScrollingOptOut P \<or> isScrolling P) \<and>
         horizontalOffsetAdjustment P = 0 \<and> verticalOffsetAdjustment P = 0 \<or>
         (\<forall>p e. cellRenderer P p = Rendered e \<longrightarrow> elem_key e = Some (cell_key p))"
  shows "\<exists>cells st'.
     defaultCellRangeRenderer P st = Inr (cells, st') \<and>
     distinct (map elem_key cells) \<and>
     mset cells =
       mset (concat (map
         (\<lambda>rc. emitted (rendered_for P
            (fst (getReusableKeyMap (getReusableKeyCache (cellCache_symbol st))
                    (rowStartIndex P) (rowStopIndex P) (columnStartIndex P) (columnStopIndex P)))
            (\<not> isScrolling P \<and> \<not> (areOffsetsAdjusted (columnSizeAndPositionManager P) \<or>
               areOffsetsAdjusted (rowSizeAndPositionManager P)))
            st rc))
         (rect_cells (rowStartIndex P) (rowStopIndex P) (columnStartIndex P) (columnStopIndex P)))) \<and>
     (\<forall>r \<in> {rowStartIndex P..rowStopIndex P}. \<forall>c \<in> {columnStartIndex P..columnStopIndex P}.
        \<forall>e \<in> set (emitted (rendered_for P
            (fst (getReusableKeyMap (getReusableKeyCache (cellCache_symbol st))
                    (rowStartIndex P) (rowStopIndex P) (columnStartIndex P) (columnStopIndex P)))
            (\<not> isScrolling P \<and> \<not> (areOffsetsAdjusted (columnSizeAndPositionManager P) \<or>
               areOffsetsAdjusted (rowSizeAndPositionManager P)))
            st (r, c))).
          elem_key e =
            map_option (\<lambda>slot. toString (int slot))
              (fst (getReusableKeyMap (getReusableKeyCache (cellCache_symbol st))
                      (rowStartIndex P) (rowStopIndex P) (columnStartIndex P) (columnStopIndex P))
                 (getKey r c)))"
proof -
  let ?K = "getReusableKeyCache (cellCache_symbol st)"
  let ?keyed = "getReusableKeyMap ?K (rowStartIndex P) (rowStopIndex P) (columnStartIndex P) (columnStopIndex P)"
  let ?m = "fst ?keyed"
  let ?cc = "\<not> isScrolling P \<and> \<not> (areOffsetsAdjusted (columnSizeAndPositionManager P) \<or>
               areOffsetsAdjusted (rowSizeAndPositionManager P))"
  let ?xs = "rect_cells (rowStartIndex P) (rowStopIndex P) (columnStartIndex P) (columnStopIndex P)"
  let ?kf = "\<lambda>rc. map_option (\<lambda>slot. toString (int slot)) (?m (getKey (fst rc) (snd rc)))"
  let ?cmp = "\<lambda>a b. number_minus (parseInt (elem_key b)) (parseInt (elem_key a))"
  from assms(2) have k: "cache_path P \<or> renderer_keeps_key P"
    by (auto simp: cache_path_def renderer_keeps_key_def)
  from assms(1) have "key_inv ?K" by (rule reachable_key_inv)
  then have inj: "inj_on (lastMap ?K) (dom (lastMap ?K))" by (simp add: key_inv_def)
  from defaultCellRangeRenderer_unfold[of P st] obtain s a where
    rows: "render_rows P ?m ?cc (st\<lparr>cellCache_symbol := Some (snd ?keyed)\<rparr>) = Inr (s, a)"
    and res: "defaultCellRangeRenderer P st = Inr (array_sort ?cmp a, s)"
    by blast
  from render_rows_keyed[OF k rows] obtain coords where co: "distinct coords"
    "set coords \<subseteq> {rowStartIndex P..rowStopIndex P} \<times> {columnStartIndex P..columnStopIndex P}"
    "map elem_key a = map ?kf coords" by blast
  have "inj_on ?kf (set coords)"
    using slot_string_inj[OF inj] co(2) by (rule inj_on_subset)
  with co(1) have da: "distinct (map elem_key a)" unfolding co(3) by (simp add: distinct_map)
  have ms: "mset (map elem_key (array_sort ?cmp a)) = mset (map elem_key a)"
    using mset_array_sort[of ?cmp a] by (metis mset_map)
  then have dist: "distinct (map elem_key (array_sort ?cmp a))"
    using da by (metis mset_eq_imp_distinct_iff)
  have exact: "a = concat (map (\<lambda>rc. emitted (rendered_for P ?m ?cc st rc)) ?xs)"
    using render_rows_exact[OF rows] by (simp add: rendered_for_slots)
  have keys: "elem_key e = ?kf (r, c)"
    if r: "r \<in> {rowStartIndex P..rowStopIndex P}" and c: "c \<in> {columnStartIndex P..columnStopIndex P}"
      and e: "e \<in> set (emitted (rendered_for P ?m ?cc st (r, c)))" for r c e
  proof -
    from getReusableKeyMap_total[OF r c, of ?K] obtain slot where
      slot: "?m (getKey r c) = Some slot" by blast
    from rendered_for_key[OF k e] slot show ?thesis
      by (simp add: reuseKey_of_def coord_key_def)
  qed
  have "mset (array_sort ?cmp a) = mset (concat (map (\<lambda>rc. emitted (rendered_for P ?m ?cc st rc)) ?xs))"
    using exact by (simp add: mset_array_sort)
  with res dist keys show ?thesis by auto
qed

theorem rendered_keys_distinct_witness:
  "reachable (getReusableKeyCache (cellCache_symbol
      (initial_state\<lparr>cellCache := (cellCache initial_state)
         (getKey 1 0 := Rendered (Element (Some ''7'') None (Props None None)))\<rparr>))) \<and>
   ((isScrollingOptOut example_params \<or> isScrolling example_params) \<and>
    horizontalOffsetAdjustment example_params = 0 \<and> verticalOffsetAdjustment example_params = 0) \<and>
   (\<exists>cells st'.
      defaultCellRangeRenderer example_params
        (initial_state\<lparr>cellCache := (cellCache initial_state)
           (getKey 1 0 := Rendered (Element (Some ''7'') None (Props None None)))\<rparr>) = Inr (cells, st') \<and>
      distinct (map elem_key cells) \<and>
      Element (Some ''2'') None (Props None None) \<in> set cells)"
proof -
  let ?st = "initial_state\<lparr>cellCache := (cellCache initial_state)
           (getKey 1 0 := Rendered (Element (Some ''7'') None (Props None None)))\<rparr>"
  let ?m = "fst (getReusableKeyMap (getReusableKeyCache (cellCache_symbol ?st))
                    (rowStartIndex example_params) (rowStopIndex example_params)
                    (columnStartIndex example_params) (columnStopIndex example_params))"
  let ?cc = "\<not> isScrolling example_params \<and>
             \<not> (areOffsetsAdjusted (columnSizeAndPositionManager example_params) \<or>
                areOffsetsAdjusted (rowSizeAndPositionManager example_params))"
  let ?xs = "rect_cells (rowStartIndex example_params) (rowStopIndex example_params)
               (columnStartIndex example_params) (columnStopIndex example_params)"
  have r: "reachable (getReusableKeyCache (cellCache_symbol ?st))"
    by (simp add: initial_state_def getReusableKeyCache_def reachable_new)
  have c: "(isScrollingOptOut example_params \<or> isScrolling example_params) \<and>
    horizontalOffsetAdjustment example_params = 0 \<and> verticalOffsetAdjustment example_params = 0"
    by (simp add: example_params_def)
  have mem: "(1, 0) \<in> set ?xs" by (simp add: set_rect_cells example_params_def)
  have em: "emitted (rendered_for example_params ?m ?cc ?st (1, 0)) =
      [Element (Some ''2'') None (Props None None)]"
    by code_simp
  from rendered_keys_distinct[OF r, of example_params] c obtain cells st' where
    res: "defaultCellRangeRenderer example_params ?st = Inr (cells, st')"
    and d: "distinct (map elem_key cells)"
    and ms: "mset cells = mset (concat (map (\<lambda>rc. emitted (rendered_for example_params ?m ?cc ?st rc)) ?xs))"
    by blast
  from mem em have "Element (Some ''2'') None (Props None None) \<in>
      set (concat (map (\<lambda>rc. emitted (rendered_for example_params ?m ?cc ?st rc)) ?xs))"
    by (simp, force)
  then have "Element (Some ''2'') None (Props None None) \<in> set cells"
    using ms by (metis set_mset_mset)
  with r c res d show ?thesis by blast
qed

text \<open>
  Claim C4 as stated fails off the cache-reuse path: the element that the cell renderer
  returns is pushed as it is, so a renderer that does not use the key of its argument yields
  three cells with the same key.
\<close>

theorem rendered_keys_duplicate_counterexample:
  "reachable (getReusableKeyCache (cellCache_symbol initial_state)) \<and>
   map_sum id (\<lambda>res. map elem_key (fst res))
     (defaultCellRangeRenderer
        (example_params\<lparr>isScrolling := False,
           cellRenderer := (\<lambda>p. Rendered (Element (Some ''cell'') None (Props (Some (cell_style p)) None)))\<rparr>)
        initial_state) =
     Inr [Some ''cell'', Some ''cell'', Some ''cell'']"
proof -
  have "reachable (getReusableKeyCache (cellCache_symbol initial_state))"
    by (simp add: initial_state_def getReusableKeyCache_def reachable_new)
  moreover have "map_sum id (\<lambda>res. map elem_key (fst res))
     (defaultCellRangeRenderer
        (example_params\<lparr>isScrolling := False,
           cellRenderer := (\<lambda>p. Rendered (Element (Some ''cell'') None (Props (Some (cell_style p)) None)))\<rparr>)
        initial_state) =
     Inr [Some ''cell'', Some ''cell'', Some ''cell'']"
    by code_simp
  ultimately show ?thesis by simp
qed

text \<open>
  Claim C5, as amended. In a call on a reachable recycler, a coordinate that has no key when
  the second pass reaches it receives the smallest positive integer that is not a value of
  the assignment built so far; and every key of the returned assignment is either the key
  the coordinate had in the previous assignment, or at most the number of coordinates of
  the rectangle. (The maximum key can exceed that number through carried-forward keys.)
\<close>

theorem getReusableKeyMap_new_key_bound:
  assumes "reachable this"
  shows "(\<forall>i < length (rect_keys rs re cs ce).
            newMap (state_before this rs re cs ce i) (rect_keys rs re cs ce ! i) = None \<longrightarrow>
            (\<exists>v. fst (getReusableKeyMap this rs re cs ce) (rect_keys rs re cs ce ! i) = Some v \<and>
                 1 \<le> v \<and> v \<notin> ran (newMap (state_before this rs re cs ce i)) \<and>
                 (\<forall>j. 1 \<le> j \<and> j < v \<longrightarrow> j \<in> ran (newMap (state_before this rs re cs ce i))))) \<and>
         (\<forall>r\<in>{rs..re}. \<forall>c\<in>{cs..ce}. \<forall>v.
            fst (getReusableKeyMap this rs re cs ce) (getKey r c) = Some v \<longrightarrow>
            lastMap this (getKey r c) = Some v \<or>
            (lastMap this (getKey r c) = None \<and> v \<le> nat (re - rs + 1) * nat (ce - cs + 1)))"
proof -
  let ?m = "fst (getReusableKeyMap this rs re cs ce)"
  let ?ks = "rect_keys rs re cs ce"
  from assms have "key_inv this" by (rule reachable_key_inv)
  then have inj: "inj_on (lastMap this) (dom (lastMap this))" by (simp add: key_inv_def)
  have smallest: "\<exists>v. ?m (?ks ! i) = Some v \<and> 1 \<le> v \<and> v \<notin> ran (newMap (state_before this rs re cs ce i)) \<and>
         (\<forall>j. 1 \<le> j \<and> j < v \<longrightarrow> j \<in> ran (newMap (state_before this rs re cs ce i)))"
    if i: "i < length ?ks" and none: "newMap (state_before this rs re cs ce i) (?ks ! i) = None" for i
  proof -
    let ?s = "state_before this rs re cs ce i"
    from assign_key_fresh[OF state_before_pass_inv[OF inj] none] obtain v where v:
      "newMap (assign_key (?ks ! i) ?s) (?ks ! i) = Some v" "1 \<le> v" "v \<notin> ran (newMap ?s)"
      "\<forall>j. 1 \<le> j \<and> j < v \<longrightarrow> j \<in> ran (newMap ?s)" by blast
    have "?m (?ks ! i) = Some v"
      by (simp add: getReusableKeyMap_split_at[OF i] fold_assign_key_keeps[OF v(1)])
    with v show ?thesis by blast
  qed
  have bound: "lastMap this (getKey r c) = Some v \<or>
      (lastMap this (getKey r c) = None \<and> v \<le> nat (re - rs + 1) * nat (ce - cs + 1))"
    if "r \<in> {rs..re}" "c \<in> {cs..ce}" "?m (getKey r c) = Some v" for r c v
  proof (cases "lastMap this (getKey r c)")
    case None
    have k: "getKey r c \<in> set ?ks" using that by (simp add: getKey_in_rect_keys)
    from getReusableKeyMap_fresh_le[OF inj k None that(3)] None show ?thesis
      by (simp add: length_rect_keys)
  next
    case (Some w)
    have k: "getKey r c \<in> set ?ks" using that by (simp add: getKey_in_rect_keys)
    from getReusableKeyMap_carried[OF k Some] that(3) Some show ?thesis by simp
  qed
  from smallest bound show ?thesis by blast
qed

theorem getReusableKeyMap_new_key_bound_witness:
  "reachable (snd (getReusableKeyMap new_ReusableKeyCache 0 2 0 0)) \<and>
   newMap (state_before (snd (getReusableKeyMap new_ReusableKeyCache 0 2 0 0)) 1 3 0 0 2) (getKey 3 0) = None \<and>
   fst (getReusableKeyMap (snd (getReusableKeyMap new_ReusableKeyCache 0 2 0 0)) 1 3 0 0) (getKey 3 0) = Some 1 \<and>
   lastMap (snd (getReusableKeyMap new_ReusableKeyCache 0 2 0 0)) (getKey 3 0) = None \<and>
   (1::nat) \<le> nat (3 - 1 + 1) * nat (0 - 0 + 1)"
proof -
  let ?K = "snd (getReusableKeyMap new_ReusableKeyCache 0 2 0 0)"
  have r: "reachable ?K" by (intro reachable.intros)
  have len: "2 < length (rect_keys 1 3 0 0)" by code_simp
  have nth: "rect_keys 1 3 0 0 ! 2 = getKey 3 0" by code_simp
  have none: "newMap (state_before ?K 1 3 0 0 2) (getKey 3 0) = None" by code_simp
  have val: "fst (getReusableKeyMap ?K 1 3 0 0) (getKey 3 0) = Some 1" by code_simp
  have mem: "(3::int) \<in> {1..3}" "(0::int) \<in> {0..0}" by simp_all
  from getReusableKeyMap_new_key_bound[OF r, of 1 3 0 0] len nth none
  have "\<exists>v. fst (getReusableKeyMap ?K 1 3 0 0) (getKey 3 0) = Some v \<and> 1 \<le> v" by fastforce
  moreover from getReusableKeyMap_new_key_bound[OF r, of 1 3 0 0] mem val
  have "lastMap ?K (getKey 3 0) = Some 1 \<or>
      (lastMap ?K (getKey 3 0) = None \<and> (1::nat) \<le> nat (3 - 1 + 1) * nat (0 - 0 + 1))" by blast
  moreover have "lastMap ?K (getKey 3 0) = None" by code_simp
  ultimately show ?thesis using r none val by simp
qed

text \<open>
  The bound of claim C5 as stated fails: after a call on rows 0 to 4 of column 0, a call on
  row 4 alone keeps the key 5 of that row, in a rectangle of one coordinate.
\<close>

theorem getReusableKeyMap_max_key_counterexample:
  "fst (getReusableKeyMap (snd (getReusableKeyMap new_ReusableKeyCache 0 4 0 0)) 4 4 0 0) (getKey 4 0) = Some 5 \<and>
   length (rect_keys 4 4 0 0) = 1"
  by code_simp

text \<open>
  Claim C6, as amended. When \<^verbatim>\<open>areOffsetsAdjusted()\<close> is true on either axis, the call does
  not read the style cache: with any other style cache \<open>sc\<close> in its place the call returns
  the same cells and ends in the same state, the style cache apart. The style cache is still
  written: after the call it holds the computed style of every coordinate of the rectangle,
  except for the cells not yet measured in deferred mode, whose entries are unchanged.
\<close>

theorem styleCache_not_read_when_offsets_adjusted:
  assumes "areOffsetsAdjusted (columnSizeAndPositionManager P) \<or>
           areOffsetsAdjusted (rowSizeAndPositionManager P)"
  shows "\<exists>cells st1 st2.
     defaultCellRangeRenderer P st = Inr (cells, st1) \<and>
     defaultCellRangeRenderer P (st\<lparr>styleCache := sc\<rparr>) = Inr (cells, st2) \<and>
     st2\<lparr>styleCache := styleCache st1\<rparr> = st1 \<and>
     (\<forall>r \<in> {rowStartIndex P..rowStopIndex P}. \<forall>c \<in> {columnStartIndex P..columnStopIndex P}.
        (unmeasured P (r, c) \<longrightarrow> styleCache st1 (getKey r c) = styleCache st (getKey r c)) \<and>
        (\<not> unmeasured P (r, c) \<longrightarrow> styleCache st1 (getKey r c) = Some (computed_style P (r, c))))"
proof -
  let ?keyed = "getReusableKeyMap (getReusableKeyCache (cellCache_symbol st))
                  (rowStartIndex P) (rowStopIndex P) (columnStartIndex P) (columnStopIndex P)"
  let ?xs = "rect_cells (rowStartIndex P) (rowStopIndex P) (columnStartIndex P) (columnStopIndex P)"
  let ?cmp = "\<lambda>a b. number_minus (parseInt (elem_key b)) (parseInt (elem_key a))"
  from assms have cc: "(\<not> isScrolling P \<and> \<not> (areOffsetsAdjusted (columnSizeAndPositionManager P) \<or>
             areOffsetsAdjusted (rowSizeAndPositionManager P))) = False" by simp
  from defaultCellRangeRenderer_unfold[of P st] obtain s a where
    rows: "render_rows P (fst ?keyed) False (st\<lparr>cellCache_symbol := Some (snd ?keyed)\<rparr>) = Inr (s, a)"
    and res: "defaultCellRangeRenderer P st = Inr (array_sort ?cmp a, s)"
    unfolding cc by blast
  have sw: "st\<lparr>styleCache := sc, cellCache_symbol := Some (snd ?keyed)\<rparr> =
      st\<lparr>cellCache_symbol := Some (snd ?keyed), styleCache := sc\<rparr>" by simp
  from assms have cc': "(\<not> isScrolling P \<and> \<not> areOffsetsAdjusted (columnSizeAndPositionManager P) \<and>
             \<not> areOffsetsAdjusted (rowSizeAndPositionManager P)) = False" by auto
  have res2: "defaultCellRangeRenderer P (st\<lparr>styleCache := sc\<rparr>) =
      Inr (array_sort ?cmp a, s\<lparr>styleCache := style_writes P ?xs sc\<rparr>)"
    using render_rows_styleCache[OF rows, of sc]
    by (simp add: defaultCellRangeRenderer_def Let_def cc' sw)
  have fin: "styleCache s = style_writes P ?xs (styleCache st)"
    using render_rows_styleCache_final[OF rows] by simp
  have per: "(unmeasured P (r, c) \<longrightarrow> styleCache s (getKey r c) = styleCache st (getKey r c)) \<and>
        (\<not> unmeasured P (r, c) \<longrightarrow> styleCache s (getKey r c) = Some (computed_style P (r, c)))"
    if "r \<in> {rowStartIndex P..rowStopIndex P}" "c \<in> {columnStartIndex P..columnStopIndex P}" for r c
  proof -
    have mem: "(r, c) \<in> set ?xs" using that by (simp add: set_rect_cells)
    have k: "coord_key (r, c) = getKey r c" by (simp add: coord_key_def)
    have "styleCache s (getKey r c) = styleCache st (getKey r c)" if u: "unmeasured P (r, c)"
    proof -
      have "\<forall>rc \<in> set ?xs. coord_key rc = getKey r c \<longrightarrow> unmeasured P rc"
        using u by (auto simp: coord_key_inj simp flip: k)
      from style_writes_unmeasured[OF this] fin show ?thesis by simp
    qed
    moreover have "styleCache s (getKey r c) = Some (computed_style P (r, c))" if "\<not> unmeasured P (r, c)"
      using style_writes_measured[OF mem that, of "styleCache st"] fin k by simp
    ultimately show ?thesis by blast
  qed
  have "(s\<lparr>styleCache := style_writes P ?xs sc\<rparr>)\<lparr>styleCache := styleCache s\<rparr> = s" by simp
  with res res2 per show ?thesis by blast
qed

theorem styleCache_not_read_when_offsets_adjusted_witness:
  "(areOffsetsAdjusted (columnSizeAndPositionManager
      (example_params\<lparr>columnSizeAndPositionManager := example_manager\<lparr>areOffsetsAdjusted := True\<rparr>,
                      isScrolling := False\<rparr>)) \<or>
    areOffsetsAdjusted (rowSizeAndPositionManager
      (example_params\<lparr>columnSizeAndPositionManager := example_manager\<lparr>areOffsetsAdjusted := True\<rparr>,
                      isScrolling := False\<rparr>))) \<and>
   (\<exists>cells st1 st2.
      defaultCellRangeRenderer
        (example_params\<lparr>columnSizeAndPositionManager := example_manager\<lparr>areOffsetsAdjusted := True\<rparr>,
                        isScrolling := False\<rparr>)
        (initial_state\<lparr>styleCache := [getKey 1 0 \<mapsto>
           \<lparr>height = Px 7, left = 7, position = ''absolute'', top' = 7, width = Px 7\<rparr>]\<rparr>) = Inr (cells, st1) \<and>
      defaultCellRangeRenderer
        (example_params\<lparr>columnSizeAndPositionManager := example_manager\<lparr>areOffsetsAdjusted := True\<rparr>,
                        isScrolling := False\<rparr>)
        (initial_state\<lparr>styleCache := Map.empty\<rparr>) = Inr (cells, st2) \<and>
      styleCache st1 (getKey 1 0) =
        Some \<lparr>height = Px 10, left = 0, position = ''absolute'', top' = 10, width = Px 10\<rparr>)"
proof -
  let ?P = "example_params\<lparr>columnSizeAndPositionManager := example_manager\<lparr>areOffsetsAdjusted := True\<rparr>,
                      isScrolling := False\<rparr>"
  let ?st = "initial_state\<lparr>styleCache := [getKey 1 0 \<mapsto>
           \<lparr>height = Px 7, left = 7, position = ''absolute'', top' = 7, width = Px 7\<rparr>]\<rparr>"
  have h: "areOffsetsAdjusted (columnSizeAndPositionManager ?P) \<or>
           areOffsetsAdjusted (rowSizeAndPositionManager ?P)" by simp
  have mem: "1 \<in> {rowStartIndex ?P..rowStopIndex ?P}" "0 \<in> {columnStartIndex ?P..columnStopIndex ?P}"
    by (simp_all add: example_params_def)
  have u: "\<not> unmeasured ?P (1, 0)" by (simp add: unmeasured_def example_params_def)
  have cs: "computed_style ?P (1, 0) =
      \<lparr>height = Px 10, left = 0, position = ''absolute'', top' = 10, width = Px 10\<rparr>"
    by (simp add: computed_style_def example_params_def example_manager_def)
  have e: "?st\<lparr>styleCache := Map.empty\<rparr> = initial_state\<lparr>styleCache := Map.empty\<rparr>" by simp
  from styleCache_not_read_when_offsets_adjusted[OF h, of ?st Map.empty] obtain cells st1 st2 where
    r: "defaultCellRangeRenderer ?P ?st = Inr (cells, st1)"
      "defaultCellRangeRenderer ?P (?st\<lparr>styleCache := Map.empty\<rparr>) = Inr (cells, st2)"
    and per: "\<forall>r \<in> {rowStartIndex ?P..rowStopIndex ?P}. \<forall>c \<in> {columnStartIndex ?P..columnStopIndex ?P}.
        \<not> unmeasured ?P (r, c) \<longrightarrow> styleCache st1 (getKey r c) = Some (computed_style ?P (r, c))"
    by blast
  from per mem u cs have "styleCache st1 (getKey 1 0) =
      Some \<lparr>height = Px 10, left = 0, position = ''absolute'', top' = 10, width = Px 10\<rparr>"
    by auto
  with r h show ?thesis unfolding e by blast
qed

text \<open>
  Claim C6 as stated fails: with \<^verbatim>\<open>areOffsetsAdjusted()\<close> true on the column axis (and no
  scrolling, no deferred measurement), a call that starts with an empty style cache ends with
  the style of coordinate (0, 0) stored in it. The store at line 202 is in the branch taken
  whenever the cached style is not used; \<^verbatim>\<open>canCacheStyle\<close> guards the read at line 174 only.
\<close>

theorem styleCache_written_when_offsets_adjusted:
  "areOffsetsAdjusted (columnSizeAndPositionManager
      (example_params\<lparr>columnSizeAndPositionManager := example_manager\<lparr>areOffsetsAdjusted := True\<rparr>,
                      isScrolling := False\<rparr>)) \<and>
   styleCache initial_state (getKey 0 0) = None \<and>
   (case defaultCellRangeRenderer
      (example_params\<lparr>columnSizeAndPositionManager := example_manager\<lparr>areOffsetsAdjusted := True\<rparr>,
                      isScrolling := False\<rparr>) initial_state of
      Inl e \<Rightarrow> False
    | Inr res \<Rightarrow> styleCache (snd res) (getKey 0 0) =
        Some \<lparr>height = Px 10, left = 0, position = ''absolute'', top' = 0, width = Px 10\<rparr>)"
  by code_simp

text \<open>
  Claim C7, as amended. With \<^verbatim>\<open>isScrolling\<close> true and both offset adjustments zero, two
  calls in a row with the same parameters and the caches of the first call both return; each
  call invokes the cell renderer at most once per coordinate; a coordinate whose cell-cache
  entry is an element after the first call is not constructed in the second call, its entry
  stays the same and a returned cell has the type and props of that entry; a coordinate
  whose entry is not an element after the first call is one on which the cell renderer
  returned \<^verbatim>\<open>null\<close>, \<^verbatim>\<open>false\<close> or \<^verbatim>\<open>undefined\<close> in the first call, and it is
  constructed again, once, in the second call; and so is every coordinate on which the cell
  renderer returned such a value in the first call.
\<close>

theorem scrolling_cache_reuse:
  assumes "isScrolling P" and "horizontalOffsetAdjustment P = 0" and "verticalOffsetAdjustment P = 0"
  shows "\<exists>cells1 st1 cells2 st2 new1 new2.
     defaultCellRangeRenderer P st = Inr (cells1, st1) \<and>
     defaultCellRangeRenderer P st1 = Inr (cells2, st2) \<and>
     cellRenderer_calls st1 = cellRenderer_calls st @ new1 \<and>
     cellRenderer_calls st2 = cellRenderer_calls st1 @ new2 \<and>
     (\<forall>r \<in> {rowStartIndex P..rowStopIndex P}. \<forall>c \<in> {columnStartIndex P..columnStopIndex P}.
        invocations_at r c new1 \<le> 1 \<and> invocations_at r c new2 \<le> 1 \<and>
        (truthy (cellCache st1 (getKey r c)) \<longrightarrow>
           invocations_at r c new2 = 0 \<and>
           (\<exists>cached. cellCache st1 (getKey r c) = Rendered cached \<and>
              cellCache st2 (getKey r c) = Rendered cached \<and>
              (\<exists>e \<in> set cells2. elem_type e = elem_type cached \<and> elem_props e = elem_props cached))) \<and>
        (\<not> truthy (cellCache st1 (getKey r c)) \<longrightarrow>
           invocations_at r c new2 = 1 \<and>
           (\<exists>p \<in> set new1. cell_rowIndex p = r \<and> cell_columnIndex p = c \<and>
              \<not> truthy (cellRenderer P p))) \<and>
        (\<forall>p \<in> set new1. cell_rowIndex p = r \<and> cell_columnIndex p = c \<and>
           \<not> truthy (cellRenderer P p) \<longrightarrow> invocations_at r c new2 = 1))"
proof -
  from assms have cp: "cache_path P" by (simp add: cache_path_def)
  let ?cc = "\<not> isScrolling P \<and> \<not> (areOffsetsAdjusted (columnSizeAndPositionManager P) \<or>
             areOffsetsAdjusted (rowSizeAndPositionManager P))"
  let ?cmp = "\<lambda>a b. number_minus (parseInt (elem_key b)) (parseInt (elem_key a))"
  let ?keyed = "\<lambda>st. getReusableKeyMap (getReusableKeyCache (cellCache_symbol st))
               (rowStartIndex P) (rowStopIndex P) (columnStartIndex P) (columnStopIndex P)"
  from defaultCellRangeRenderer_unfold[of P st] obtain st1 a1 where
    rows1: "render_rows P (fst (?keyed st)) ?cc (st\<lparr>cellCache_symbol := Some (snd (?keyed st))\<rparr>) = Inr (st1, a1)"
    and res1: "defaultCellRangeRenderer P st = Inr (array_sort ?cmp a1, st1)"
    by blast
  from defaultCellRangeRenderer_unfold[of P st1] obtain st2 a2 where
    rows2: "render_rows P (fst (?keyed st1)) ?cc (st1\<lparr>cellCache_symbol := Some (snd (?keyed st1))\<rparr>) = Inr (st2, a2)"
    and res2: "defaultCellRangeRenderer P st1 = Inr (array_sort ?cmp a2, st2)"
    by blast
  from render_rows_cached[OF cp rows1] obtain new1 where
    n1': "cellRenderer_calls st1 =
         cellRenderer_calls (st\<lparr>cellCache_symbol := Some (snd (?keyed st))\<rparr>) @ new1"
    and q1: "\<forall>r \<in> {rowStartIndex P..rowStopIndex P}. \<forall>c \<in> {columnStartIndex P..columnStopIndex P}.
        invocations_at r c new1 = (if truthy (cellCache st (getKey r c)) then 0 else 1) \<and>
        (truthy (cellCache st (getKey r c)) \<longrightarrow> cellCache st1 (getKey r c) = cellCache st (getKey r c)) \<and>
        (\<not> truthy (cellCache st (getKey r c)) \<longrightarrow>
           (\<exists>p \<in> set new1. cell_rowIndex p = r \<and> cell_columnIndex p = c \<and>
              cellCache st1 (getKey r c) = cellRenderer P p)) \<and>
        set (emitted (with_key (reuseKey_of (fst (?keyed st)) (r, c)) (cellCache st1 (getKey r c)))) \<subseteq> set a1"
    by auto
  from n1' have n1: "cellRenderer_calls st1 = cellRenderer_calls st @ new1" by simp
  from render_rows_cached[OF cp rows2] obtain new2 where
    n2': "cellRenderer_calls st2 =
         cellRenderer_calls (st1\<lparr>cellCache_symbol := Some (snd (?keyed st1))\<rparr>) @ new2"
    and q2: "\<forall>r \<in> {rowStartIndex P..rowStopIndex P}. \<forall>c \<in> {columnStartIndex P..columnStopIndex P}.
        invocations_at r c new2 = (if truthy (cellCache st1 (getKey r c)) then 0 else 1) \<and>
        (truthy (cellCache st1 (getKey r c)) \<longrightarrow> cellCache st2 (getKey r c) = cellCache st1 (getKey r c)) \<and>
        (\<not> truthy (cellCache st1 (getKey r c)) \<longrightarrow>
           (\<exists>p \<in> set new2. cell_rowIndex p = r \<and> cell_columnIndex p = c \<and>
              cellCache st2 (getKey r c) = cellRenderer P p)) \<and>
        set (emitted (with_key (reuseKey_of (fst (?keyed st1)) (r, c)) (cellCache st2 (getKey r c)))) \<subseteq> set a2"
    by auto
  from n2' have n2: "cellRenderer_calls st2 = cellRenderer_calls st1 @ new2" by simp
  have stored: "cellCache st1 (getKey (cell_rowIndex p) (cell_columnIndex p)) = cellRenderer P p"
    if "p \<in> set new1" for p
    using render_rows_stored[OF cp rows1 n1' that] .
  have per: "invocations_at r c new1 \<le> 1 \<and> invocations_at r c new2 \<le> 1 \<and>
        (truthy (cellCache st1 (getKey r c)) \<longrightarrow>
           invocations_at r c new2 = 0 \<and>
           (\<exists>cached. cellCache st1 (getKey r c) = Rendered cached \<and>
              cellCache st2 (getKey r c) = Rendered cached \<and>
              (\<exists>e \<in> set (array_sort ?cmp a2). elem_type e = elem_type cached \<and> elem_props e = elem_props cached))) \<and>
        (\<not> truthy (cellCache st1 (getKey r c)) \<longrightarrow>
           invocations_at r c new2 = 1 \<and>
           (\<exists>p \<in> set new1. cell_rowIndex p = r \<and> cell_columnIndex p = c \<and>
              \<not> truthy (cellRenderer P p))) \<and>
        (\<forall>p \<in> set new1. cell_rowIndex p = r \<and> cell_columnIndex p = c \<and>
           \<not> truthy (cellRenderer P p) \<longrightarrow> invocations_at r c new2 = 1)"
    if r: "r \<in> {rowStartIndex P..rowStopIndex P}" and c: "c \<in> {columnStartIndex P..columnStopIndex P}"
    for r c
  proof -
    from q1 r c have f1: "invocations_at r c new1 = (if truthy (cellCache st (getKey r c)) then 0 else 1)"
      "truthy (cellCache st (getKey r c)) \<longrightarrow> cellCache st1 (getKey r c) = cellCache st (getKey r c)"
      "\<not> truthy (cellCache st (getKey r c)) \<longrightarrow>
           (\<exists>p \<in> set new1. cell_rowIndex p = r \<and> cell_columnIndex p = c \<and>
              cellCache st1 (getKey r c) = cellRenderer P p)"
      by blast+
    from q2 r c have f2: "invocations_at r c new2 = (if truthy (cellCache st1 (getKey r c)) then 0 else 1)"
      "truthy (cellCache st1 (getKey r c)) \<longrightarrow> cellCache st2 (getKey r c) = cellCache st1 (getKey r c)"
      "set (emitted (with_key (reuseKey_of (fst (?keyed st1)) (r, c)) (cellCache st2 (getKey r c)))) \<subseteq> set a2"
      by blast+
    have le: "invocations_at r c new1 \<le> 1" "invocations_at r c new2 \<le> 1" using f1(1) f2(1) by auto
    have cachedcase: "invocations_at r c new2 = 0 \<and>
           (\<exists>cached. cellCache st1 (getKey r c) = Rendered cached \<and>
              cellCache st2 (getKey r c) = Rendered cached \<and>
              (\<exists>e \<in> set (array_sort ?cmp a2). elem_type e = elem_type cached \<and> elem_props e = elem_props cached))"
      if t: "truthy (cellCache st1 (getKey r c))"
    proof -
      from t obtain cached where ca: "cellCache st1 (getKey r c) = Rendered cached"
        by (cases "cellCache st1 (getKey r c)") auto
      with f2(2) t have c2: "cellCache st2 (getKey r c) = Rendered cached" by simp
      from with_key_Rendered[of "reuseKey_of (fst (?keyed st1)) (r, c)" cached] obtain e where
        e: "emitted (with_key (reuseKey_of (fst (?keyed st1)) (r, c)) (Rendered cached)) = [e]"
          "elem_type e = elem_type cached" "elem_props e = elem_props cached" by blast
      with f2(3) c2 have "e \<in> set a2" by auto
      with e(2,3) ca c2 f2(1) t show ?thesis by (auto simp: set_array_sort)
    qed
    have fresh: "invocations_at r c new2 = 1 \<and>
        (\<exists>p \<in> set new1. cell_rowIndex p = r \<and> cell_columnIndex p = c \<and> \<not> truthy (cellRenderer P p))"
      if nt: "\<not> truthy (cellCache st1 (getKey r c))"
    proof -
      have "\<not> truthy (cellCache st (getKey r c))" using nt f1(2) by auto
      with f1(3) obtain p where "p \<in> set new1" "cell_rowIndex p = r" "cell_columnIndex p = c"
        "cellCache st1 (getKey r c) = cellRenderer P p" by auto
      with nt f2(1) show ?thesis by auto
    qed
    have again: "invocations_at r c new2 = 1"
      if "p \<in> set new1" "cell_rowIndex p = r \<and> cell_columnIndex p = c \<and> \<not> truthy (cellRenderer P p)" for p
    proof -
      from stored[OF that(1)] that(2) have "\<not> truthy (cellCache st1 (getKey r c))" by auto
      with f2(1) show ?thesis by simp
    qed
    from le cachedcase fresh again show ?thesis by blast
  qed
  from res1 res2 n1 n2 per show ?thesis by blast
qed

theorem scrolling_cache_reuse_witness:
  "isScrolling example_params \<and> horizontalOffsetAdjustment example_params = 0 \<and>
   verticalOffsetAdjustment example_params = 0 \<and>
   (\<exists>cells1 st1 cells2 st2 new2.
      defaultCellRangeRenderer example_params initial_state = Inr (cells1, st1) \<and>
      defaultCellRangeRenderer example_params st1 = Inr (cells2, st2) \<and>
      cellRenderer_calls st2 = cellRenderer_calls st1 @ new2 \<and>
      truthy (cellCache st1 (getKey 0 0)) \<and>
      invocations_at 0 0 new2 = 0)"
proof -
  have h: "isScrolling example_params" "horizontalOffsetAdjustment example_params = 0"
    "verticalOffsetAdjustment example_params = 0"
    by (simp_all add: example_params_def)
  have mem: "0 \<in> {rowStartIndex example_params..rowStopIndex example_params}"
    "0 \<in> {columnStartIndex example_params..columnStopIndex example_params}"
    by (simp_all add: example_params_def)
  have ev: "case defaultCellRangeRenderer example_params initial_state of
      Inl e \<Rightarrow> False | Inr res \<Rightarrow> truthy (cellCache (snd res) (getKey 0 0))"
    by code_simp
  from scrolling_cache_reuse[OF h, of initial_state] obtain cells1 st1 cells2 st2 new1 new2 where
    r: "defaultCellRangeRenderer example_params initial_state = Inr (cells1, st1)"
      "defaultCellRangeRenderer example_params st1 = Inr (cells2, st2)"
      "cellRenderer_calls st2 = cellRenderer_calls st1 @ new2"
    and per: "\<forall>r \<in> {rowStartIndex example_params..rowStopIndex example_params}.
       \<forall>c \<in> {columnStartIndex example_params..columnStopIndex example_params}.
        truthy (cellCache st1 (getKey r c)) \<longrightarrow> invocations_at r c new2 = 0"
    by blast
  from ev r(1) have t: "truthy (cellCache st1 (getKey 0 0))" by simp
  with per mem have "invocations_at 0 0 new2 = 0" by blast
  with h r t show ?thesis by blast
qed

text \<open>
  Claim C7 as stated fails for a coordinate on which the cell renderer returns \<^verbatim>\<open>null\<close>:
  the falsy value is stored but \<^verbatim>\<open>!cellCache[key]\<close> stays true, so the renderer is invoked
  for row 0 in both calls (and once for row 1).
\<close>

theorem scrolling_null_cell_counterexample:
  "isScrolling (example_params\<lparr>cellRenderer :=
       (\<lambda>p. if cell_rowIndex p = 0 then Null else example_renderer p)\<rparr>) \<and>
   horizontalOffsetAdjustment (example_params\<lparr>cellRenderer :=
       (\<lambda>p. if cell_rowIndex p = 0 then Null else example_renderer p)\<rparr>) = 0 \<and>
   verticalOffsetAdjustment (example_params\<lparr>cellRenderer :=
       (\<lambda>p. if cell_rowIndex p = 0 then Null else example_renderer p)\<rparr>) = 0 \<and>
   (case defaultCellRangeRenderer (example_params\<lparr>cellRenderer :=
       (\<lambda>p. if cell_rowIndex p = 0 then Null else example_renderer p)\<rparr>) initial_state of
      Inl e \<Rightarrow> False
    | Inr res1 \<Rightarrow>
        (case defaultCellRangeRenderer (example_params\<lparr>cellRenderer :=
            (\<lambda>p. if cell_rowIndex p = 0 then Null else example_renderer p)\<rparr>) (snd res1) of
           Inl e \<Rightarrow> False
         | Inr res2 \<Rightarrow>
             invocations_at 0 0 (cellRenderer_calls (snd res2)) = 2 \<and>
             invocations_at 1 0 (cellRenderer_calls (snd res2)) = 1))"
  by code_simp

text \<open>
  Claim C8. On the cache-reuse path (scrolling or opted out, both offset adjustments zero),
  for a coordinate of the rectangle whose cell-cache entry is an element: the call returns,
  the entry is the same element afterwards, and when the key of the cached element differs
  from the string form of the slot key, the returned collection contains an element with that
  string as key and the type and props of the cached element (the cached element itself when
  the keys agree).
\<close>

theorem cached_cell_copied_with_new_key:
  assumes "isScrollingOptOut P \<or> isScrolling P"
    and "horizontalOffsetAdjustment P = 0" and "verticalOffsetAdjustment P = 0"
    and "r \<in> {rowStartIndex P..rowStopIndex P}" and "c \<in> {columnStartIndex P..columnStopIndex P}"
    and "cellCache st (getKey r c) = Rendered cached"
  shows "\<exists>cells st' slot.
     defaultCellRangeRenderer P st = Inr (cells, st') \<and>
     fst (getReusableKeyMap (getReusableKeyCache (cellCache_symbol st))
            (rowStartIndex P) (rowStopIndex P) (columnStartIndex P) (columnStopIndex P)) (getKey r c) = Some slot \<and>
     cellCache st' (getKey r c) = Rendered cached \<and>
     (elem_key cached \<noteq> Some (toString (int slot)) \<longrightarrow>
        Element (Some (toString (int slot))) (elem_type cached) (elem_props cached) \<in> set cells) \<and>
     (elem_key cached = Some (toString (int slot)) \<longrightarrow> cached \<in> set cells)"
proof -
  let ?keyed = "getReusableKeyMap (getReusableKeyCache (cellCache_symbol st))
                  (rowStartIndex P) (rowStopIndex P) (columnStartIndex P) (columnStopIndex P)"
  let ?st1 = "st\<lparr>cellCache_symbol := Some (snd ?keyed)\<rparr>"
  let ?xs = "rect_cells (rowStartIndex P) (rowStopIndex P) (columnStartIndex P) (columnStopIndex P)"
  from assms(1-3) have cp: "cache_path P" by (simp add: cache_path_def)
  from defaultCellRangeRenderer_unfold[of P st] obtain s a where
    rows: "render_rows P (fst ?keyed) (\<not> isScrolling P \<and> \<not> (areOffsetsAdjusted (columnSizeAndPositionManager P) \<or>
             areOffsetsAdjusted (rowSizeAndPositionManager P))) ?st1 = Inr (s, a)"
    and res: "defaultCellRangeRenderer P st =
       Inr (array_sort (\<lambda>a b. number_minus (parseInt (elem_key b)) (parseInt (elem_key a))) a, s)"
    by blast
  from cached_inv_fold[OF cp distinct_rect_cells rows[unfolded render_rows_flat]]
  have inv: "cached_inv P (fst ?keyed) ?st1 ?xs (s, a)" .
  have mem: "(r, c) \<in> set ?xs" using assms(4,5) by (simp add: set_rect_cells)
  from getReusableKeyMap_total[OF assms(4,5)] obtain slot where
    slot: "fst ?keyed (getKey r c) = Some slot" by blast
  have kept: "cellCache s (getKey r c) = Rendered cached"
    using inv assms(6) by (simp add: cached_inv_def)
  have "set (emitted (with_key (reuseKey_of (fst ?keyed) (r, c)) (cellCache s (coord_key (r, c))))) \<subseteq> set a"
    using inv mem unfolding cached_inv_def snd_conv fst_conv by auto
  then have "set (emitted (with_key (toString (int slot)) (Rendered cached))) \<subseteq> set a"
    using slot kept by (simp add: reuseKey_of_def coord_key_def)
  then have "(elem_key cached \<noteq> Some (toString (int slot)) \<longrightarrow>
        Element (Some (toString (int slot))) (elem_type cached) (elem_props cached) \<in> set a) \<and>
     (elem_key cached = Some (toString (int slot)) \<longrightarrow> cached \<in> set a)"
    by (auto simp: emitted_def with_key_def split: if_splits)
  with res slot kept show ?thesis by (simp add: set_array_sort)
qed

theorem cached_cell_copied_with_new_key_witness:
  "(isScrollingOptOut example_params \<or> isScrolling example_params) \<and>
   horizontalOffsetAdjustment example_params = 0 \<and> verticalOffsetAdjustment example_params = 0 \<and>
   (\<exists>cells st'.
      defaultCellRangeRenderer example_params
        (initial_state\<lparr>cellCache := (cellCache initial_state)
           (getKey 1 0 := Rendered (Element (Some ''7'') None (Props None None)))\<rparr>) = Inr (cells, st') \<and>
      cellCache st' (getKey 1 0) = Rendered (Element (Some ''7'') None (Props None None)) \<and>
      Element (Some ''2'') None (Props None None) \<in> set cells)"
proof -
  let ?e = "Element (Some ''7'') None (Props None None)"
  let ?st = "initial_state\<lparr>cellCache := (cellCache initial_state)(getKey 1 0 := Rendered ?e)\<rparr>"
  have h: "isScrollingOptOut example_params \<or> isScrolling example_params"
    "horizontalOffsetAdjustment example_params = 0" "verticalOffsetAdjustment example_params = 0"
    "1 \<in> {rowStartIndex example_params..rowStopIndex example_params}"
    "0 \<in> {columnStartIndex example_params..columnStopIndex example_params}"
    "cellCache ?st (getKey 1 0) = Rendered ?e"
    by (simp_all add: example_params_def)
  have slot: "fst (getReusableKeyMap (getReusableKeyCache (cellCache_symbol ?st))
            (rowStartIndex example_params) (rowStopIndex example_params)
            (columnStartIndex example_params) (columnStopIndex example_params)) (getKey 1 0) = Some 2"
    by code_simp
  have k: "toString (int 2) = ''2''" by code_simp
  from cached_cell_copied_with_new_key[OF h] slot k h(1-3) show ?thesis by auto
qed

text \<open>
  Claim C9. Given the same parameters, the same caches and the same prior recycler (in the
  slot on \<^verbatim>\<open>cellCache\<close> for one copy, on \<^verbatim>\<open>parent\<close> for the other), both copies of
  \<^verbatim>\<open>defaultCellRangeRenderer\<close> return, and they return the same multiset of rendered cells;
  they also leave the same cell cache, style cache, invocations and recycler.
\<close>

theorem variants_same_multiset:
  "\<exists>cells1 st1 cells2 st2.
     defaultCellRangeRenderer P (st\<lparr>cellCache_symbol := recycler\<rparr>) = Inr (cells1, st1) \<and>
     defaultCellRangeRenderer_part_001 P (st\<lparr>parent_symbol := recycler\<rparr>) = Inr (cells2, st2) \<and>
     mset cells1 = mset cells2 \<and>
     cellCache st1 = cellCache st2 \<and> styleCache st1 = styleCache st2 \<and>
     cellRenderer_calls st1 = cellRenderer_calls st2 \<and>
     cellCache_symbol st1 = parent_symbol st2"
proof -
  let ?keyed = "getReusableKeyMap (getReusableKeyCache recycler)
                  (rowStartIndex P) (rowStopIndex P) (columnStartIndex P) (columnStopIndex P)"
  let ?cc = "\<not> isScrolling P \<and> \<not> (areOffsetsAdjusted (columnSizeAndPositionManager P) \<or>
             areOffsetsAdjusted (rowSizeAndPositionManager P))"
  from render_rows_returns[OF keyed_dom] obtain s a where
    base: "render_rows P (fst ?keyed) ?cc st = Inr (s, a)" by blast
  have A: "st\<lparr>cellCache_symbol := recycler, cellCache_symbol := Some (snd ?keyed)\<rparr> =
      st\<lparr>cellCache_symbol := Some (snd ?keyed), parent_symbol := parent_symbol st\<rparr>" by simp
  have B: "st\<lparr>parent_symbol := recycler, parent_symbol := Some (snd ?keyed)\<rparr> =
      st\<lparr>cellCache_symbol := cellCache_symbol st, parent_symbol := Some (snd ?keyed)\<rparr>" by simp
  have rA: "render_rows P (fst ?keyed) ?cc (st\<lparr>cellCache_symbol := recycler, cellCache_symbol := Some (snd ?keyed)\<rparr>) =
      Inr (s\<lparr>cellCache_symbol := Some (snd ?keyed), parent_symbol := parent_symbol st\<rparr>, a)"
    unfolding A render_rows_slots base by simp
  have rB: "render_rows P (fst ?keyed) ?cc (st\<lparr>parent_symbol := recycler, parent_symbol := Some (snd ?keyed)\<rparr>) =
      Inr (s\<lparr>cellCache_symbol := cellCache_symbol st, parent_symbol := Some (snd ?keyed)\<rparr>, a)"
    unfolding B render_rows_slots base by simp
  have 1: "defaultCellRangeRenderer P (st\<lparr>cellCache_symbol := recycler\<rparr>) =
      Inr (array_sort (\<lambda>a b. number_minus (parseInt (elem_key b)) (parseInt (elem_key a))) a,
           s\<lparr>cellCache_symbol := Some (snd ?keyed), parent_symbol := parent_symbol st\<rparr>)"
    using rA by (simp add: defaultCellRangeRenderer_def Let_def)
  have 2: "defaultCellRangeRenderer_part_001 P (st\<lparr>parent_symbol := recycler\<rparr>) =
      Inr (array_sort (\<lambda>a b. number_minus (parseInt (elem_key a)) (parseInt (elem_key b))) a,
           s\<lparr>cellCache_symbol := cellCache_symbol st, parent_symbol := Some (snd ?keyed)\<rparr>)"
    using rB by (simp add: defaultCellRangeRenderer_part_001_def Let_def)
  show ?thesis unfolding 1 2 by (simp add: mset_array_sort)
qed

text \<open>
  Claim C10. After a call the stored assignment has exactly the coordinates of the rectangle
  as its domain. After a call on an empty rectangle the stored assignment is empty, the next
  call returns what a fresh recycler would return, and so numbers the coordinates of its
  rectangle \<open>1, 2, 3, \<dots>\<close> in row-major order, whatever keys they had before.
\<close>

theorem getReusableKeyMap_replaces_state:
  "dom (lastMap (snd (getReusableKeyMap this rs re cs ce))) =
     {getKey r c | r c. r \<in> {rs..re} \<and> c \<in> {cs..ce}} \<and>
   (re < rs \<or> ce < cs \<longrightarrow>
      lastMap (snd (getReusableKeyMap this rs re cs ce)) = Map.empty \<and>
      getReusableKeyMap (snd (getReusableKeyMap this rs re cs ce)) rs' re' cs' ce' =
        getReusableKeyMap new_ReusableKeyCache rs' re' cs' ce' \<and>
      (\<forall>i < length (rect_keys rs' re' cs' ce').
         fst (getReusableKeyMap (snd (getReusableKeyMap this rs re cs ce)) rs' re' cs' ce')
           (rect_keys rs' re' cs' ce' ! i) = Some (i + 1)))"
proof -
  have d: "dom (lastMap (snd (getReusableKeyMap this rs re cs ce))) =
     {getKey r c | r c. r \<in> {rs..re} \<and> c \<in> {cs..ce}}"
    by (force simp: getReusableKeyMap_lastMap getReusableKeyMap_dom set_rect_keys)
  have e: "lastMap (snd (getReusableKeyMap this rs re cs ce)) = Map.empty \<and>
      getReusableKeyMap (snd (getReusableKeyMap this rs re cs ce)) rs' re' cs' ce' =
        getReusableKeyMap new_ReusableKeyCache rs' re' cs' ce' \<and>
      (\<forall>i < length (rect_keys rs' re' cs' ce').
         fst (getReusableKeyMap (snd (getReusableKeyMap this rs re cs ce)) rs' re' cs' ce')
           (rect_keys rs' re' cs' ce' ! i) = Some (i + 1))"
    if "re < rs \<or> ce < cs"
    using getReusableKeyMap_empty_rect[OF that, of this] getReusableKeyMap_new_sequential[of _ rs' re' cs' ce']
    by (simp add: new_ReusableKeyCache_def)
  from d e show ?thesis by blast
qed

theorem getReusableKeyMap_replaces_state_witness:
  "fst (getReusableKeyMap new_ReusableKeyCache 0 2 0 0) (getKey 1 0) = Some 2 \<and>
   (-1 < (0::int) \<or> (0::int) < 0) \<and>
   fst (getReusableKeyMap
          (snd (getReusableKeyMap (snd (getReusableKeyMap new_ReusableKeyCache 0 2 0 0)) 0 (-1) 0 0))
          1 3 0 0) (getKey 1 0) = Some 1"
proof -
  let ?K = "snd (getReusableKeyMap new_ReusableKeyCache 0 2 0 0)"
  have e: "-1 < (0::int) \<or> (0::int) < 0" by simp
  have len: "0 < length (rect_keys 1 3 0 0)" by code_simp
  have nth: "rect_keys 1 3 0 0 ! 0 = getKey 1 0" by code_simp
  from getReusableKeyMap_replaces_state[of ?K 0 "-1" 0 0 1 3 0 0] e len
  have "fst (getReusableKeyMap (snd (getReusableKeyMap ?K 0 (-1) 0 0)) 1 3 0 0)
           (rect_keys 1 3 0 0 ! 0) = Some (0 + 1)" by blast
  moreover have "fst (getReusableKeyMap new_ReusableKeyCache 0 2 0 0) (getKey 1 0) = Some 2"
    by code_simp
  ultimately show ?thesis using e nth by simp
qed

end
